theory Spec2Isabelle
  imports Main
begin

section \<open>JavaScript strings and file paths\<close>

text \<open>
  Strings are byte strings: a \<open>string\<close> holds the UTF-8 encoding of the JavaScript
  string, so that \<open>Buffer.byteLength(s, 'utf8')\<close> is \<open>length s\<close> and appending a
  line to a file makes the file grow by exactly that many bytes.

  JavaScript itself counts and cuts a string in UTF-16 code units. A code point below
  U+10000 is one unit and has one to three bytes; any other code point is two units (a
  surrogate pair) and has four bytes, the first of them 0xF0 or more. The bytes 0x80 to
  0xBF continue a sequence.
\<close>

definition continuation_byte :: "char \<Rightarrow> bool" where
  "continuation_byte c = (128 \<le> (of_char c :: nat) \<and> (of_char c :: nat) < 192)"

definition four_byte_lead :: "char \<Rightarrow> bool" where
  "four_byte_lead c = (240 \<le> (of_char c :: nat))"

definition utf8_width :: "char \<Rightarrow> nat" where
  "utf8_width c = (if (of_char c :: nat) < 192 then 1 else if (of_char c :: nat) < 224 then 2
                   else if (of_char c :: nat) < 240 then 3 else 4)"

text \<open>\<open>s.length\<close>: one unit for every sequence, and one more for every sequence of four bytes.\<close>

definition js_length :: "string \<Rightarrow> nat" where
  "js_length s =
     length (filter (\<lambda>c. \<not> continuation_byte c) s) + length (filter four_byte_lead s)"

text \<open>
  \<open>s.substring(0, n)\<close> is \<open>utf16_prefix n 0 s\<close>: \<open>n\<close> units are still to be taken, and \<open>k\<close>
  bytes of the sequence at hand are still to be copied. A cut between the two units of a
  pair leaves an unpaired surrogate at the end, which is written as U+FFFD (the bytes
  EF BF BD) when the string is encoded, as it is for a file name.
\<close>

definition replacement_character :: string where
  "replacement_character = [char_of (239 :: nat), char_of (191 :: nat), char_of (189 :: nat)]"

fun utf16_prefix :: "nat \<Rightarrow> nat \<Rightarrow> string \<Rightarrow> string" where
  "utf16_prefix n k [] = []"
| "utf16_prefix n k (c # cs) =
     (if k > 0 then c # utf16_prefix n (k - 1) cs
      else if n = 0 then []
      else if four_byte_lead c
           then (if n = 1 then replacement_character else c # utf16_prefix (n - 2) 3 cs)
           else c # utf16_prefix (n - 1) (utf8_width c - 1) cs)"

definition substring0 :: "nat \<Rightarrow> string \<Rightarrow> string" where
  "substring0 n s = utf16_prefix n 0 s"

text \<open>
  \<open>path.join\<close> of Node's POSIX \<open>path\<close> module, for two arguments. The arguments that are
  not empty are put together with a slash and the result is normalised: the segments
  between slashes are gone through from the left, an empty segment or \<open>.\<close> is dropped,
  \<open>..\<close> removes the segment before it (or is kept, in a relative path with nothing left
  to remove), a leading slash and a trailing slash are kept.
\<close>

fun split_slash :: "string \<Rightarrow> string list" where
  "split_slash [] = [[]]"
| "split_slash (c # cs) =
     (if c = CHR ''/'' then [] # split_slash cs
      else (case split_slash cs of
              [] \<Rightarrow> [[c]]
            | seg # segs \<Rightarrow> (c # seg) # segs))"

fun normalizeString :: "bool \<Rightarrow> string list \<Rightarrow> string list \<Rightarrow> string list" where
  "normalizeString allowAboveRoot res [] = res"
| "normalizeString allowAboveRoot res (seg # segs) =
     (if seg = [] \<or> seg = ''.'' then normalizeString allowAboveRoot res segs
      else if seg = ''..'' then
        (if res \<noteq> [] \<and> last res \<noteq> ''..''
         then normalizeString allowAboveRoot (butlast res) segs
         else if allowAboveRoot then normalizeString allowAboveRoot (res @ [''..'']) segs
         else normalizeString allowAboveRoot res segs)
      else normalizeString allowAboveRoot (res @ [seg]) segs)"

fun join_slash :: "string list \<Rightarrow> string" where
  "join_slash [] = []"
| "join_slash [x] = x"
| "join_slash (x # y # ys) = x @ ''/'' @ join_slash (y # ys)"

definition path_normalize :: "string \<Rightarrow> string" where
  "path_normalize p =
     (if p = [] then ''.''
      else (let isAbsolute = (hd p = CHR ''/'');
                trailingSeparator = (last p = CHR ''/'');
                res = join_slash (normalizeString (\<not> isAbsolute) [] (split_slash p))
            in if res = []
               then (if isAbsolute then ''/'' else if trailingSeparator then ''./'' else ''.'')
               else (let res' = (if trailingSeparator then res @ ''/'' else res)
                     in if isAbsolute then ''/'' @ res' else res')))"

definition path_join :: "string \<Rightarrow> string \<Rightarrow> string" where
  "path_join dir name =
     (let joined = (if dir = [] then name else if name = [] then dir else dir @ ''/'' @ name)
      in if joined = [] then ''.'' else path_normalize joined)"

section \<open>The behaviour log writer (telemetry/userBehaviorLogger.ts)\<close>

datatype EventType =
  prompt_submit | prompt_cancel | typing_start | api_request | api_response
  | api_error | flash_fallback | loop_detected | at_command | shell_command

record UserBehaviorEvent =
  eventType :: EventType
  timestamp :: int
  model :: "string option"
  promptId :: "string option"
  requestId :: "string option"
  content :: "string option"
  inputTokenCount :: "nat option"
  outputTokenCount :: "nat option"
  durationMs :: "int option"
  error :: "string option"
  errorType :: "string option"
  authType :: "string option"
  operationType :: "string option"
  toolsCalled :: "string list option"
  requestContext :: "string option"
  estimatedTokens :: "nat option"
  conversationTurn :: "nat option"
  hasFileContext :: "bool option"
  systemPromptLength :: "nat option"
  responseType :: "string option"

text \<open>
  The object built in \<open>logEvent\<close>: the event spread, then \<open>sessionId\<close>, the two
  identity hashes and the ISO-8601 rendering of the timestamp, which override the
  event's own fields of those names.
\<close>

record LogEntry =
  event :: UserBehaviorEvent
  entrySessionId :: string
  entryStudentIdHash :: string
  entryMachineIdHash :: string
  entryTimestamp :: string

record Config =
  telemetryEnabled :: bool
  sessionId :: string

text \<open>
  What a call reads from outside the logger: the calendar date of the clock
  (\<open>new Date().toISOString().split('T')[0]\<close>), the rendering of an event's timestamp
  (\<open>toISOString\<close> throws a RangeError on an invalid time value: \<open>None\<close>), the JSON
  serialiser (utils/safeJsonStringify.js), and the paths on which
  \<open>fs.appendFileSync\<close> throws.
\<close>

record Env =
  today :: string
  toISOString :: "int \<Rightarrow> string option"
  safeJsonStringify :: "LogEntry \<Rightarrow> string"
  appendThrows :: "string \<Rightarrow> bool"

text \<open>The file system: a path holds the bytes of its file, or no file.\<close>

type_synonym FileSystem = "string \<rightharpoonup> string"

record UserBehaviorLogger =
  logDir :: string
  currentLogFilePath :: string
  currentRollNumber :: nat
  maxFileSize :: nat
  studentIdHash :: string
  machineIdHash :: string

text \<open>The decimal rendering of a number in a template literal.\<close>

definition digit_char :: "nat \<Rightarrow> char" where
  "digit_char d = char_of (48 + d)"

function string_of_nat :: "nat \<Rightarrow> string" where
  "string_of_nat n =
     (if n < 10 then [digit_char n]
      else string_of_nat (n div 10) @ [digit_char (n mod 10)])"
  by pat_completeness auto
termination
  by (relation "measure (\<lambda>n. n)") auto

declare string_of_nat.simps [simp del]

definition generateLogFilePath :: "Env \<Rightarrow> Config \<Rightarrow> UserBehaviorLogger \<Rightarrow> string" where
  "generateLogFilePath env cfg lg =
     (let dateStr = today env;
          sid = substring0 8 (sessionId cfg);
          baseFileName = dateStr @ ''-'' @ sid;
          rollSuffix = (if currentRollNumber lg > 0
                        then ''-'' @ string_of_nat (currentRollNumber lg) else '''')
      in path_join (logDir lg) (baseFileName @ rollSuffix @ ''.jsonl''))"

definition checkAndRollFile ::
  "Env \<Rightarrow> Config \<Rightarrow> FileSystem \<Rightarrow> string \<Rightarrow> UserBehaviorLogger \<Rightarrow> UserBehaviorLogger" where
  "checkAndRollFile env cfg fs logLine lg =
     (case fs (currentLogFilePath lg) of
        None \<Rightarrow> lg
      | Some bytes \<Rightarrow>
          (let projectedSize = length bytes + length logLine
           in if projectedSize > maxFileSize lg
              then (let lg' = lg\<lparr>currentRollNumber := currentRollNumber lg + 1\<rparr>
                    in lg'\<lparr>currentLogFilePath := generateLogFilePath env cfg lg'\<rparr>)
              else lg))"

datatype fs_error = AppendFailed

definition appendFileSync :: "Env \<Rightarrow> FileSystem \<Rightarrow> string \<Rightarrow> string \<Rightarrow> fs_error + FileSystem" where
  "appendFileSync env fs p bytes =
     (if appendThrows env p then Inl AppendFailed
      else Inr (fs(p \<mapsto> (case fs p of None \<Rightarrow> bytes | Some old \<Rightarrow> old @ bytes))))"

text \<open>
  \<open>logEvent\<close> on the logger and the file system. Everything after the telemetry test
  runs inside \<open>try\<close>; the \<open>catch\<close> reports to the console and returns, so a throw
  keeps what had been changed before it.
\<close>

definition logEvent ::
  "Env \<Rightarrow> Config \<Rightarrow> UserBehaviorEvent \<Rightarrow> UserBehaviorLogger \<times> FileSystem
     \<Rightarrow> UserBehaviorLogger \<times> FileSystem" where
  "logEvent env cfg ev st =
     (let lg = fst st; fs = snd st in
      if \<not> telemetryEnabled cfg then (lg, fs)
      else (case toISOString env (timestamp ev) of
              None \<Rightarrow> (lg, fs)
            | Some isoTime \<Rightarrow>
                (let logEntry = \<lparr>event = ev, entrySessionId = sessionId cfg,
                                 entryStudentIdHash = studentIdHash lg,
                                 entryMachineIdHash = machineIdHash lg,
                                 entryTimestamp = isoTime\<rparr>;
                     logLine = safeJsonStringify env logEntry @ [CHR 0x0A];
                     lg' = checkAndRollFile env cfg fs logLine lg
                 in (case appendFileSync env fs (currentLogFilePath lg') logLine of
                       Inl e \<Rightarrow> (lg', fs)
                     | Inr fs' \<Rightarrow> (lg', fs')))))"

text \<open>A run of \<open>logEvent\<close> calls, each with the clock and file system of its moment.\<close>

fun logEvents :: "Config \<Rightarrow> (Env \<times> UserBehaviorEvent) list \<Rightarrow> UserBehaviorLogger \<times> FileSystem
     \<Rightarrow> UserBehaviorLogger \<times> FileSystem" where
  "logEvents cfg [] st = st"
| "logEvents cfg (x # xs) st = logEvents cfg xs (logEvent (fst x) cfg (snd x) st)"

text \<open>
  Auxiliary notions for reasoning about file names: reading a decimal rendering back,
  the roll suffix, the file name as a function of its ingredients, and the relation
  between a logger's active path and its roll number (for a date of \<open>n\<close> bytes).
\<close>

definition digit_val :: "char \<Rightarrow> nat" where
  "digit_val c = of_char c - 48"

definition nat_of_string :: "string \<Rightarrow> nat" where
  "nat_of_string s = foldl (\<lambda>a c. 10 * a + digit_val c) 0 s"

definition rollSuffix :: "nat \<Rightarrow> string" where
  "rollSuffix r = (if r > 0 then ''-'' @ string_of_nat r else '''')"

definition log_path :: "string \<Rightarrow> string \<Rightarrow> string \<Rightarrow> nat \<Rightarrow> string" where
  "log_path dir d sid r =
     path_join dir (d @ ''-'' @ substring0 8 sid @ rollSuffix r @ ''.jsonl'')"

definition path_inv :: "nat \<Rightarrow> Config \<Rightarrow> UserBehaviorLogger \<Rightarrow> bool" where
  "path_inv n cfg lg = (\<exists>d. length d = n \<and> CHR ''/'' \<notin> set d \<and>
      currentLogFilePath lg = log_path (logDir lg) d (sessionId cfg) (currentRollNumber lg))"

text \<open>The last segment of a path, and the segments that normalisation treats specially.\<close>

definition last_segment :: "string \<Rightarrow> string" where
  "last_segment p = last (split_slash p)"

definition special_segment :: "string \<Rightarrow> bool" where
  "special_segment s = (s = [] \<or> s = ''.'' \<or> s = ''..'')"

section \<open>Conversation turns (core/geminiChat.ts)\<close>

text \<open>
  A \<open>Part\<close> of the model API is an object with optional fields. The fields the chat
  session reads are kept; \<open>otherKeys\<close> counts the further own keys of the object
  (inline data, file data, executable code and so on), which the session only counts.
  A field that is present holds \<open>Some\<close> value.
\<close>

record Part =
  partText :: "string option"
  thought :: "bool option"
  functionCall :: "string option"
  functionResponse :: "string option"
  otherKeys :: nat

record Content =
  role :: "string option"
  parts :: "Part list option"

definition keys_length :: "Part \<Rightarrow> nat" where
  "keys_length p =
     (if partText p = None then 0 else 1) + (if thought p = None then 0 else 1)
     + (if functionCall p = None then 0 else 1) + (if functionResponse p = None then 0 else 1)
     + otherKeys p"

text \<open>The body of the \<open>for\<close> loop of \<open>isValidContent\<close>: \<open>False\<close> where it returns false.\<close>

definition part_ok :: "Part \<Rightarrow> bool" where
  "part_ok p =
     (if keys_length p = 0 then False
      else if thought p \<noteq> Some True \<and> partText p \<noteq> None \<and> partText p = Some []
      then False
      else True)"

fun parts_loop :: "Part list \<Rightarrow> bool" where
  "parts_loop [] = True"
| "parts_loop (p # ps) = (if part_ok p then parts_loop ps else False)"

definition isValidContent :: "Content \<Rightarrow> bool" where
  "isValidContent c =
     (case parts c of
        None \<Rightarrow> False
      | Some ps \<Rightarrow> if length ps = 0 then False else parts_loop ps)"

text \<open>
  \<open>extractCuratedHistory\<close>. The inner \<open>while\<close> advances \<open>i\<close> on every round and is a
  total function of the index. The outer \<open>while\<close> leaves \<open>i\<close> where it is when the turn
  at \<open>i\<close> has a role other than \<open>user\<close> and \<open>model\<close>, and then never returns: it is a
  partial function, with \<open>None\<close> for a run that does not end.
\<close>

function model_run :: "Content list \<Rightarrow> nat \<Rightarrow> Content list \<Rightarrow> bool \<Rightarrow> nat \<times> Content list \<times> bool" where
  "model_run h i modelOutput isValid =
     (if i < length h \<and> role (h ! i) = Some ''model''
      then model_run h (i + 1) (modelOutput @ [h ! i])
             (if isValid \<and> \<not> isValidContent (h ! i) then False else isValid)
      else (i, modelOutput, isValid))"
  by pat_completeness auto
termination
  by (relation "measure (\<lambda>(h, i, modelOutput, isValid). length h - i)") auto

declare model_run.simps [simp del]

partial_function (option) curate_loop :: "Content list \<Rightarrow> nat \<Rightarrow> Content list \<Rightarrow> Content list option" where
  "curate_loop h i curatedHistory =
     (if i < length h
      then (if role (h ! i) = Some ''user''
            then curate_loop h (i + 1) (curatedHistory @ [h ! i])
            else (case model_run h i [] True of
                    (i', modelOutput, isValid) \<Rightarrow>
                      if isValid then curate_loop h i' (curatedHistory @ modelOutput)
                      else curate_loop h i' (butlast curatedHistory)))
      else Some curatedHistory)"

definition extractCuratedHistory :: "Content list \<Rightarrow> Content list option" where
  "extractCuratedHistory comprehensiveHistory =
     (if length comprehensiveHistory = 0 then Some []
      else curate_loop comprehensiveHistory 0 [])"

text \<open>
  Curation as the specification words it. A history is a sequence of turns whose role
  is \<open>user\<close> or \<open>model\<close> (\<open>roles_ok\<close>). A turn is content-valid when its parts are
  there and not empty, no part is an empty object, and no part that is not a thought
  carries an empty text. User turns pass through; a maximal run of consecutive model
  turns is kept only if every turn of it is content-valid, and otherwise the run is
  dropped together with the user turn immediately before it.
\<close>

definition is_model :: "Content \<Rightarrow> bool" where
  "is_model c = (role c = Some ''model'')"

definition is_user :: "Content \<Rightarrow> bool" where
  "is_user c = (role c = Some ''user'')"

definition roles_ok :: "Content list \<Rightarrow> bool" where
  "roles_ok h = list_all (\<lambda>c. is_user c \<or> is_model c) h"

definition content_valid :: "Content \<Rightarrow> bool" where
  "content_valid c =
     (case parts c of
        None \<Rightarrow> False
      | Some ps \<Rightarrow> ps \<noteq> []
          \<and> list_all (\<lambda>p. keys_length p > 0) ps
          \<and> list_all (\<lambda>p. \<not> (partText p = Some [] \<and> thought p \<noteq> Some True)) ps)"

function curated_spec :: "Content list \<Rightarrow> Content list" where
  "curated_spec [] = []"
| "curated_spec (c # cs) =
     (if is_model c
      then (if list_all content_valid (c # takeWhile is_model cs)
            then c # takeWhile is_model cs @ curated_spec (dropWhile is_model cs)
            else curated_spec (dropWhile is_model cs))
      else (if list_all content_valid (takeWhile is_model cs)
            then c # takeWhile is_model cs @ curated_spec (dropWhile is_model cs)
            else curated_spec (dropWhile is_model cs)))"
  by pat_completeness auto
termination
  by (relation "measure length") (auto simp: length_dropWhile_le less_Suc_eq_le)

declare curated_spec.simps [simp del]

section \<open>Request classification: tool prediction (core/geminiChat.ts)\<close>

text \<open>
  \<open>String.prototype.includes\<close> and \<open>toLowerCase\<close> on texts. The keywords are ASCII, and
  \<open>toLowerCase\<close> is modelled on the ASCII letters; other bytes stay as they are.
\<close>

fun starts_with :: "string \<Rightarrow> string \<Rightarrow> bool" where
  "starts_with s [] = True"
| "starts_with [] (k # ks) = False"
| "starts_with (c # cs) (k # ks) = (c = k \<and> starts_with cs ks)"

fun str_includes :: "string \<Rightarrow> string \<Rightarrow> bool" where
  "str_includes [] k = starts_with [] k"
| "str_includes (c # cs) k = (starts_with (c # cs) k \<or> str_includes cs k)"

definition lower_char :: "char \<Rightarrow> char" where
  "lower_char c = (if 65 \<le> (of_char c :: nat) \<and> (of_char c :: nat) \<le> 90
                   then char_of ((of_char c :: nat) + 32) else c)"

definition toLowerCase :: "string \<Rightarrow> string" where
  "toLowerCase s = map lower_char s"

text \<open>The seven tests on one lower-cased text, with what each pushes, in source order.\<close>

definition text_tools :: "string \<Rightarrow> string list" where
  "text_tools t =
     (if str_includes t ''@'' \<or> str_includes t ''read'' \<or> str_includes t ''file''
      then [''read_file''] else [])
   @ (if str_includes t ''write'' \<or> str_includes t ''create'' \<or> str_includes t ''save''
      then [''write_file''] else [])
   @ (if str_includes t ''edit'' \<or> str_includes t ''modify'' \<or> str_includes t ''change''
      then [''replace''] else [])
   @ (if str_includes t ''search'' \<or> str_includes t ''find'' \<or> str_includes t ''grep''
      then [''search_file_content''] else [])
   @ (if str_includes t ''list'' \<or> str_includes t ''ls'' \<or> str_includes t ''directory''
      then [''list_directory''] else [])
   @ (if str_includes t ''run'' \<or> str_includes t ''execute'' \<or> str_includes t ''bash''
         \<or> str_includes t ''command''
      then [''run_shell_command''] else [])
   @ (if str_includes t ''web'' \<or> str_includes t ''http'' \<or> str_includes t ''url''
      then [''web_fetch''] else [])"

text \<open>The loop over the parts of the latest user turn; \<open>part.text\<close> is tested for truth.\<close>

fun parts_tools :: "Part list \<Rightarrow> string list \<Rightarrow> string list" where
  "parts_tools [] potentialTools = potentialTools"
| "parts_tools (p # ps) potentialTools =
     parts_tools ps
       (case partText p of
          None \<Rightarrow> potentialTools
        | Some t \<Rightarrow> if t = [] then potentialTools
                    else potentialTools @ text_tools (toLowerCase t))"

text \<open>\<open>[...new Set(xs)]\<close>: the elements in the order of their first occurrence.\<close>

fun set_spread :: "'a list \<Rightarrow> 'a list \<Rightarrow> 'a list" where
  "set_spread [] seen = seen"
| "set_spread (x # xs) seen = set_spread xs (if x \<in> set seen then seen else seen @ [x])"

definition extractToolsCalled :: "Content list \<Rightarrow> string list" where
  "extractToolsCalled contents =
     (let latestUserContent = find (\<lambda>c. role c = Some ''user'') (rev contents);
          potentialTools =
            (case latestUserContent of
               None \<Rightarrow> []
             | Some c \<Rightarrow> (case parts c of None \<Rightarrow> [] | Some ps \<Rightarrow> parts_tools ps []))
      in set_spread potentialTools [])"



section \<open>The chat session (core/geminiChat.ts)\<close>

subsection \<open>Responses, errors and telemetry events\<close>

record UsageMetadata =
  promptTokenCount :: "nat option"
  candidatesTokenCount :: "nat option"
  totalTokenCount :: "nat option"

record Candidate =
  candidateContent :: "Content option"

text \<open>
  A response as the session reads it: the three properties it looks at by name, and
  whether the object carries a truthy property \<open>isChunk\<close>, which is not part of the
  declared type and is looked at only in \<open>_detectResponseType\<close>.
\<close>

record GenerateContentResponse =
  candidates :: "Candidate list option"
  usageMetadata :: "UsageMetadata option"
  automaticFunctionCallingHistory :: "Content list option"
  isChunk :: bool

text \<open>
  A thrown value: an \<open>Error\<close> object with its \<open>name\<close> and \<open>message\<close>, or any other
  value with its \<open>String(...)\<close> rendering.
\<close>

datatype JsError = ErrorObject string string | ThrownValue string

text \<open>
  What \<open>JSON.parse(JSON.stringify(x))\<close> gives back for the two things the session
  serialises: one response, or the array of collected chunks.
\<close>

datatype Json = JsonResponse GenerateContentResponse | JsonChunks "GenerateContentResponse list"

datatype SystemInstruction =
  SI_string string | SI_content "Part list option" | SI_text "string option" | SI_other

record ApiRequestEvent =
  req_model :: string
  req_prompt_id :: string
  req_request_id :: string
  req_request_text :: "Content list"
  req_operation_type :: string
  req_tools_called :: "string list"
  req_request_context :: string
  req_estimated_tokens :: nat
  req_conversation_turn :: nat
  req_has_file_context :: bool
  req_system_prompt_length :: nat

record ApiResponseEvent =
  resp_model :: string
  resp_duration_ms :: int
  resp_prompt_id :: string
  resp_request_id :: string
  resp_auth_type :: "string option"
  resp_usage :: UsageMetadata
  resp_response_text :: Json
  resp_response_type :: string

record ApiErrorEvent =
  err_model :: string
  err_error :: string
  err_duration_ms :: int
  err_prompt_id :: string
  err_auth_type :: "string option"
  err_error_type :: string

text \<open>The calls into telemetry/loggers.js, in the order they are made.\<close>

datatype TelemetryCall =
  LogApiRequest ApiRequestEvent | LogApiResponse ApiResponseEvent | LogApiError ApiErrorEvent

text \<open>
  The session: its history, the set of logged response ids (a \<open>Set\<close>, in insertion
  order), what it reads from the shared configuration (active model, authentication
  type, system instruction of the generation configuration), and the telemetry calls
  made so far.
\<close>

record GeminiChat =
  history :: "Content list"
  loggedResponses :: "string list"
  currentModel :: string
  contentGeneratorAuthType :: "string option"
  systemInstruction :: "SystemInstruction option"
  telemetry :: "TelemetryCall list"

definition isValidResponse :: "GenerateContentResponse \<Rightarrow> bool" where
  "isValidResponse response =
     (case candidates response of
        None \<Rightarrow> False
      | Some [] \<Rightarrow> False
      | Some (c # cs) \<Rightarrow>
          (case candidateContent c of None \<Rightarrow> False | Some ct \<Rightarrow> isValidContent ct))"

subsection \<open>Request and response classification\<close>

definition text_truthy :: "Part \<Rightarrow> bool" where
  "text_truthy p = (case partText p of None \<Rightarrow> False | Some t \<Rightarrow> t \<noteq> [])"

definition parts_of :: "Content \<Rightarrow> Part list" where
  "parts_of c = (case parts c of None \<Rightarrow> [] | Some ps \<Rightarrow> ps)"

definition detectOperationType :: "Content list \<Rightarrow> string" where
  "detectOperationType contents =
     (if list_ex (\<lambda>c. role c = Some ''model''
                       \<and> list_ex (\<lambda>p. functionCall p \<noteq> None) (parts_of c)) contents
      then ''tool_call''
      else if length contents > 1 then ''chat''
      else if length contents = 1 then ''chat''
      else ''unknown'')"

definition determineRequestContext :: "Content list \<Rightarrow> string" where
  "determineRequestContext contents =
     (if length contents = 0 then ''new''
      else if role (last contents) = Some ''user''
              \<and> list_ex (\<lambda>p. functionResponse p \<noteq> None) (parts_of (last contents))
      then ''tool_result''
      else if length contents > 1 then ''continuation''
      else ''new'')"

definition estimateTokens :: "Content list \<Rightarrow> nat" where
  "estimateTokens contents =
     sum_list (map (\<lambda>c. sum_list (map (\<lambda>p. if text_truthy p
                                             then (js_length (the (partText p)) + 3) div 4 else 0)
                                      (parts_of c)))
                   contents)"

definition file_like :: "string \<Rightarrow> bool" where
  "file_like t = (str_includes t ''file:'' \<or> str_includes t ''.txt'' \<or> str_includes t ''.js''
                  \<or> str_includes t ''.ts'' \<or> str_includes t ''.py'' \<or> str_includes t ''.json'')"

definition hasFileContextIn :: "Content list \<Rightarrow> bool" where
  "hasFileContextIn contents =
     list_ex (\<lambda>c. list_ex (\<lambda>p. text_truthy p \<and> file_like (the (partText p))) (parts_of c))
       contents"

definition getSystemPromptLength :: "SystemInstruction option \<Rightarrow> nat" where
  "getSystemPromptLength si =
     (case si of
        None \<Rightarrow> 0
      | Some (SI_string s) \<Rightarrow> js_length s
      | Some (SI_content ps) \<Rightarrow>
          (case ps of
             None \<Rightarrow> 0
           | Some l \<Rightarrow> js_length (concat (map (\<lambda>p. case partText p of None \<Rightarrow> [] | Some t \<Rightarrow> t) l)))
      | Some (SI_text t) \<Rightarrow> (case t of None \<Rightarrow> 0 | Some s \<Rightarrow> js_length s)
      | Some SI_other \<Rightarrow> 0)"

definition candidate_parts :: "Candidate \<Rightarrow> Part list" where
  "candidate_parts c = (case candidateContent c of None \<Rightarrow> [] | Some ct \<Rightarrow> parts_of ct)"

definition detectResponseType :: "Json \<Rightarrow> string" where
  "detectResponseType response =
     (case response of
        JsonChunks chunks \<Rightarrow> ''error''
      | JsonResponse r \<Rightarrow>
          (case candidates r of
             None \<Rightarrow> (if isChunk r then ''streaming_chunk'' else ''error'')
           | Some cs \<Rightarrow>
               (let hasToolCalls = list_ex (\<lambda>c. list_ex (\<lambda>p. functionCall p \<noteq> None)
                                                  (candidate_parts c)) cs;
                    hasText = list_ex (\<lambda>c. list_ex text_truthy (candidate_parts c)) cs
                in if hasToolCalls \<and> hasText then ''mixed''
                   else if hasToolCalls then ''tool_call''
                   else if hasText then ''text_response''
                   else ''error'')))"

subsection \<open>Telemetry of one exchange\<close>

text \<open>\<open>_logApiRequest\<close>; the identifier minted by \<open>crypto.randomUUID()\<close> is an argument.\<close>

definition logApiRequest_chat ::
  "string \<Rightarrow> Content list \<Rightarrow> string \<Rightarrow> string \<Rightarrow> GeminiChat \<Rightarrow> GeminiChat" where
  "logApiRequest_chat newRequestId contents mdl prompt_id st =
     st\<lparr>telemetry := telemetry st @
        [LogApiRequest \<lparr>req_model = mdl, req_prompt_id = prompt_id,
           req_request_id = newRequestId, req_request_text = contents,
           req_operation_type = detectOperationType contents,
           req_tools_called = extractToolsCalled contents,
           req_request_context = determineRequestContext contents,
           req_estimated_tokens = estimateTokens contents,
           req_conversation_turn = (length contents + 1) div 2,
           req_has_file_context = hasFileContextIn contents,
           req_system_prompt_length = getSystemPromptLength (systemInstruction st)\<rparr>]\<rparr>"

text \<open>
  \<open>_logApiResponse\<close>. It returns at once without usage metadata. The test of
  \<open>loggedResponses\<close> and the insertion into it are commented out in the source, so the
  set is only trimmed (the first 50 entries, once it holds more than 100), and the event
  is logged whatever the request id.
\<close>

definition logApiResponse_chat ::
  "int \<Rightarrow> string \<Rightarrow> string \<Rightarrow> UsageMetadata option \<Rightarrow> Json \<Rightarrow> GeminiChat \<Rightarrow> GeminiChat" where
  "logApiResponse_chat duration prompt_id reqId usage responseText st =
     (case usage of
        None \<Rightarrow> st
      | Some u \<Rightarrow>
          (let st1 = (if length (loggedResponses st) > 100
                      then st\<lparr>loggedResponses := drop 50 (loggedResponses st)\<rparr> else st)
           in st1\<lparr>telemetry := telemetry st1 @
                [LogApiResponse \<lparr>resp_model = currentModel st1, resp_duration_ms = duration,
                   resp_prompt_id = prompt_id, resp_request_id = reqId,
                   resp_auth_type = contentGeneratorAuthType st1, resp_usage = u,
                   resp_response_text = responseText,
                   resp_response_type = detectResponseType responseText\<rparr>]\<rparr>))"

definition logApiError_chat :: "int \<Rightarrow> JsError \<Rightarrow> string \<Rightarrow> GeminiChat \<Rightarrow> GeminiChat" where
  "logApiError_chat duration e prompt_id st =
     (let errorMessage = (case e of ErrorObject n m \<Rightarrow> m | ThrownValue s \<Rightarrow> s);
          errorTypeName = (case e of ErrorObject n m \<Rightarrow> n | ThrownValue s \<Rightarrow> ''unknown'')
      in st\<lparr>telemetry := telemetry st @
           [LogApiError \<lparr>err_model = currentModel st, err_error = errorMessage,
              err_duration_ms = duration, err_prompt_id = prompt_id,
              err_auth_type = contentGeneratorAuthType st,
              err_error_type = errorTypeName\<rparr>]\<rparr>)"

subsection \<open>Recording an exchange in the history\<close>

definition isTextContent :: "Content option \<Rightarrow> bool" where
  "isTextContent co =
     (case co of
        None \<Rightarrow> False
      | Some c \<Rightarrow> role c = Some ''model''
          \<and> (case parts c of
                None \<Rightarrow> False
              | Some [] \<Rightarrow> False
              | Some (p # ps) \<Rightarrow> (case partText p of None \<Rightarrow> False | Some t \<Rightarrow> t \<noteq> [])))"

definition isThoughtContent :: "Content option \<Rightarrow> bool" where
  "isThoughtContent co =
     (case co of
        None \<Rightarrow> False
      | Some c \<Rightarrow> role c = Some ''model''
          \<and> (case parts c of
                None \<Rightarrow> False
              | Some [] \<Rightarrow> False
              | Some (p # ps) \<Rightarrow> thought p = Some True))"

text \<open>
  The merge of a text turn into the text turn before it: the first part's text of the
  later turn is appended to the first part's text of the earlier one, and the later
  turn's further parts are pushed after the earlier turn's parts. Both are text turns
  where this is called.
\<close>

definition merge_text :: "Content \<Rightarrow> Content \<Rightarrow> Content" where
  "merge_text lastContent c =
     (case (parts lastContent, parts c) of
        (Some (p # ps), Some (q # qs)) \<Rightarrow>
          lastContent\<lparr>parts := Some (p\<lparr>partText := Some (the (partText p) @ the (partText q))\<rparr>
                                      # ps @ qs)\<rparr>
      | other \<Rightarrow> lastContent)"

definition last_opt :: "'a list \<Rightarrow> 'a option" where
  "last_opt xs = (if xs = [] then None else Some (last xs))"

fun consolidate :: "Content list \<Rightarrow> Content list \<Rightarrow> Content list" where
  "consolidate [] consolidated = consolidated"
| "consolidate (c # cs) consolidated =
     consolidate cs
       (if isThoughtContent (Some c) then consolidated
        else if isTextContent (last_opt consolidated) \<and> isTextContent (Some c)
        then butlast consolidated @ [merge_text (last consolidated) c]
        else consolidated @ [c])"

text \<open>
  \<open>recordHistory\<close>; \<open>isFunctionResponse\<close> (utils/messageInspectors.js) is an argument.
  The curation of the automatic function calling history may not return, and then
  neither does \<open>recordHistory\<close>.
\<close>

definition recordHistory ::
  "(Content \<Rightarrow> bool) \<Rightarrow> Content \<Rightarrow> Content list \<Rightarrow> Content list \<Rightarrow> Content list
     \<Rightarrow> Content list option" where
  "recordHistory isFunctionResponse userInput modelOutput afcHistory hist =
     (let nonThoughtModelOutput = filter (\<lambda>c. \<not> isThoughtContent (Some c)) modelOutput;
          outputContents =
            (if length nonThoughtModelOutput > 0
                \<and> list_all (\<lambda>c. role c \<noteq> None) nonThoughtModelOutput
             then nonThoughtModelOutput
             else if length nonThoughtModelOutput = 0 \<and> length modelOutput > 0 then []
             else if \<not> isFunctionResponse userInput
             then [\<lparr>role = Some ''model'', parts = Some []\<rparr>]
             else []);
          pushed =
            (if length afcHistory > 0
             then (case extractCuratedHistory afcHistory of
                     None \<Rightarrow> None
                   | Some curated \<Rightarrow> Some (hist @ curated))
             else Some (hist @ [userInput]));
          consolidatedOutputContents = consolidate outputContents []
      in case pushed of
           None \<Rightarrow> None
         | Some hist1 \<Rightarrow>
             if length consolidatedOutputContents > 0
             then (let canMergeWithLastHistory = (length afcHistory = 0)
                   in if canMergeWithLastHistory \<and> isTextContent (last_opt hist1)
                         \<and> isTextContent (Some (hd consolidatedOutputContents))
                      then Some (butlast hist1
                                 @ [merge_text (last hist1) (hd consolidatedOutputContents)]
                                 @ tl consolidatedOutputContents)
                      else Some (hist1 @ consolidatedOutputContents))
             else Some hist1)"

subsection \<open>Sending a message\<close>

text \<open>
  What one call takes from outside the session: the identifier minted for the request,
  the clock before the call and when the call ends, the outcome of
  \<open>retryWithBackoff(apiCall, ...)\<close> (utils/retry.js) on the request contents, that is an
  error that escaped the retry policy or the result, together with the model that the
  fallback handler may have switched to, and \<open>isFunctionResponse\<close>.
\<close>

record 'r CallEnv =
  newRequestId :: string
  startTime :: int
  endTime :: int
  retryWithBackoff :: "string \<Rightarrow> Content list \<Rightarrow> string \<times> (JsError + 'r)"
  isFunctionResponse :: "Content \<Rightarrow> bool"

text \<open>
  \<open>sendMessage\<close>, run from its first line to its return or throw, on the session. The
  outer \<open>option\<close> is \<open>None\<close> when the call does not return; \<open>Inl\<close> is the thrown error.
\<close>

definition sendMessage ::
  "GenerateContentResponse CallEnv \<Rightarrow> Content \<Rightarrow> string \<Rightarrow> GeminiChat
     \<Rightarrow> ((JsError + GenerateContentResponse) \<times> GeminiChat) option" where
  "sendMessage env userContent prompt_id st =
     (case extractCuratedHistory (history st) of
        None \<Rightarrow> None
      | Some curated \<Rightarrow>
          (let requestContents = curated @ [userContent];
               st1 = logApiRequest_chat (newRequestId env) requestContents (currentModel st)
                       prompt_id st;
               outcome = retryWithBackoff env (currentModel st1) requestContents;
               st2 = st1\<lparr>currentModel := fst outcome\<rparr>;
               duration = endTime env - startTime env
           in case snd outcome of
                Inl e \<Rightarrow> Some (Inl e, logApiError_chat duration e prompt_id st2)
              | Inr response \<Rightarrow>
                  (let st3 = logApiResponse_chat duration prompt_id (newRequestId env)
                               (usageMetadata response) (JsonResponse response) st2;
                       outputContent =
                         (case candidates response of
                            None \<Rightarrow> None
                          | Some [] \<Rightarrow> None
                          | Some (c # cs) \<Rightarrow> candidateContent c);
                       index = length curated;
                       afcHistory =
                         (case automaticFunctionCallingHistory response of
                            None \<Rightarrow> []
                          | Some full \<Rightarrow> drop index full);
                       modelOutput = (case outputContent of None \<Rightarrow> [] | Some c \<Rightarrow> [c])
                   in case recordHistory (isFunctionResponse env) userContent modelOutput
                             afcHistory (history st3) of
                        None \<Rightarrow> None
                      | Some hist \<Rightarrow> Some (Inr response, st3\<lparr>history := hist\<rparr>))))"

subsection \<open>Sending a message with a streamed response\<close>

text \<open>
  A streamed response that is consumed to its end: the chunks it yields and, when the
  stream raises after them, the error.
\<close>

type_synonym Stream = "GenerateContentResponse list \<times> JsError option"

text \<open>The \<open>for await\<close> loop: the chunks collected and the output contents collected.\<close>

fun collect_chunks ::
  "GenerateContentResponse list \<Rightarrow> GenerateContentResponse list \<times> Content list
     \<Rightarrow> GenerateContentResponse list \<times> Content list" where
  "collect_chunks [] acc = acc"
| "collect_chunks (chunk # rest) acc =
     collect_chunks rest
       (if isValidResponse chunk
        then (let content = (case candidates chunk of
                               Some (c # cs) \<Rightarrow> candidateContent c | other \<Rightarrow> None)
              in case content of
                   None \<Rightarrow> (fst acc @ [chunk], snd acc)
                 | Some ct \<Rightarrow>
                     if isThoughtContent (Some ct) then (fst acc @ [chunk], snd acc)
                     else (fst acc @ [chunk], snd acc @ [ct]))
        else acc)"

definition getFinalUsageMetadata :: "GenerateContentResponse list \<Rightarrow> UsageMetadata option" where
  "getFinalUsageMetadata chunks =
     (case find (\<lambda>chunk. usageMetadata chunk \<noteq> None) (rev chunks) of
        None \<Rightarrow> None
      | Some lastChunkWithMetadata \<Rightarrow> usageMetadata lastChunkWithMetadata)"

text \<open>
  \<open>processStreamResponse\<close> with a consumer that pulls until the generator is done: the
  chunks yielded to the consumer, then the return or the rethrown error.
\<close>

definition processStreamResponse ::
  "Stream CallEnv \<Rightarrow> Stream \<Rightarrow> Content \<Rightarrow> string \<Rightarrow> GeminiChat
     \<Rightarrow> ((JsError + GenerateContentResponse list) \<times> GeminiChat) option" where
  "processStreamResponse env streamResponse inputContent prompt_id st =
     (let collected = collect_chunks (fst streamResponse) ([], []);
          chunks = fst collected;
          outputContent = snd collected;
          duration = endTime env - startTime env
      in case snd streamResponse of
           Some e \<Rightarrow> Some (Inl e, logApiError_chat duration e prompt_id st)
         | None \<Rightarrow>
             (let st1 = logApiResponse_chat duration prompt_id (newRequestId env)
                          (getFinalUsageMetadata chunks) (JsonChunks chunks) st
              in case recordHistory (isFunctionResponse env) inputContent outputContent []
                        (history st1) of
                   None \<Rightarrow> None
                 | Some hist \<Rightarrow> Some (Inr (fst streamResponse), st1\<lparr>history := hist\<rparr>)))"

definition sendMessageStream ::
  "Stream CallEnv \<Rightarrow> Content \<Rightarrow> string \<Rightarrow> GeminiChat
     \<Rightarrow> ((JsError + GenerateContentResponse list) \<times> GeminiChat) option" where
  "sendMessageStream env userContent prompt_id st =
     (case extractCuratedHistory (history st) of
        None \<Rightarrow> None
      | Some curated \<Rightarrow>
          (let requestContents = curated @ [userContent];
               st1 = logApiRequest_chat (newRequestId env) requestContents (currentModel st)
                       prompt_id st;
               outcome = retryWithBackoff env (currentModel st1) requestContents;
               st2 = st1\<lparr>currentModel := fst outcome\<rparr>
           in case snd outcome of
                Inl e \<Rightarrow>
                  Some (Inl e, logApiError_chat (endTime env - startTime env) e prompt_id st2)
              | Inr streamResponse \<Rightarrow>
                  processStreamResponse env streamResponse userContent prompt_id st2))"

text \<open>The response events, and the error events, among telemetry calls.\<close>

definition response_events :: "TelemetryCall list \<Rightarrow> ApiResponseEvent list" where
  "response_events calls =
     concat (map (\<lambda>c. case c of LogApiResponse e \<Rightarrow> [e] | other \<Rightarrow> []) calls)"

definition error_events :: "TelemetryCall list \<Rightarrow> ApiErrorEvent list" where
  "error_events calls =
     concat (map (\<lambda>c. case c of LogApiError e \<Rightarrow> [e] | other \<Rightarrow> []) calls)"

text \<open>The error event and the response event of an exchange, as the session builds them.\<close>

definition error_message :: "JsError \<Rightarrow> string" where
  "error_message e = (case e of ErrorObject n m \<Rightarrow> m | ThrownValue s \<Rightarrow> s)"

definition error_class :: "JsError \<Rightarrow> string" where
  "error_class e = (case e of ErrorObject n m \<Rightarrow> n | ThrownValue s \<Rightarrow> ''unknown'')"

definition error_event :: "GeminiChat \<Rightarrow> 'r CallEnv \<Rightarrow> string \<Rightarrow> string \<Rightarrow> JsError \<Rightarrow> ApiErrorEvent" where
  "error_event st env mdl prompt_id e =
     \<lparr>err_model = mdl, err_error = error_message e,
      err_duration_ms = endTime env - startTime env, err_prompt_id = prompt_id,
      err_auth_type = contentGeneratorAuthType st, err_error_type = error_class e\<rparr>"

definition response_event ::
  "GeminiChat \<Rightarrow> 'r CallEnv \<Rightarrow> string \<Rightarrow> string \<Rightarrow> UsageMetadata \<Rightarrow> Json \<Rightarrow> ApiResponseEvent" where
  "response_event st env mdl prompt_id u j =
     \<lparr>resp_model = mdl, resp_duration_ms = endTime env - startTime env,
      resp_prompt_id = prompt_id, resp_request_id = newRequestId env,
      resp_auth_type = contentGeneratorAuthType st, resp_usage = u,
      resp_response_text = j, resp_response_type = detectResponseType j\<rparr>"

text \<open>What a call returned or threw, and what it left in the session.\<close>

definition returned :: "('x \<times> GeminiChat) option \<Rightarrow> 'x option" where
  "returned r = map_option fst r"

definition history_after :: "('x \<times> GeminiChat) option \<Rightarrow> Content list option" where
  "history_after r = map_option (history \<circ> snd) r"

definition responses_after :: "('x \<times> GeminiChat) option \<Rightarrow> ApiResponseEvent list option" where
  "responses_after r = map_option (response_events \<circ> telemetry \<circ> snd) r"

definition errors_after :: "('x \<times> GeminiChat) option \<Rightarrow> ApiErrorEvent list option" where
  "errors_after r = map_option (error_events \<circ> telemetry \<circ> snd) r"

definition carries_usage :: "GenerateContentResponse \<Rightarrow> bool" where
  "carries_usage chunk = (usageMetadata chunk \<noteq> None)"

definition afc_slice :: "GeminiChat \<Rightarrow> GenerateContentResponse \<Rightarrow> Content list" where
  "afc_slice st response =
     (case automaticFunctionCallingHistory response of
        None \<Rightarrow> []
      | Some full \<Rightarrow> drop (length (curated_spec (history st))) full)"

section \<open>The history as objects in a store (getHistory and structuredClone)\<close>

text \<open>
  For the copy that \<open>getHistory\<close> returns, arrays and objects are cells of a store and
  are named by their addresses, so that two names of one object can be told from two
  equal objects. A store is the list of its cells; an address is an index; a new object
  is a new cell at the end. An array cell holds the addresses of its elements, a turn
  cell holds the role and the address of the parts array, a part cell holds the part.
\<close>

datatype cell =
  ArrayCell "nat list" | ContentCell "string option" "nat option" | PartCell Part

type_synonym store = "cell list"

definition lookup :: "store \<Rightarrow> nat \<Rightarrow> cell option" where
  "lookup h a = (if a < length h then Some (h ! a) else None)"

text \<open>The value that a store holds at an address, read as a part, a turn or a history.\<close>

definition read_part :: "store \<Rightarrow> nat \<Rightarrow> Part option" where
  "read_part h a = (case lookup h a of Some (PartCell p) \<Rightarrow> Some p | other \<Rightarrow> None)"

definition read_parts :: "store \<Rightarrow> nat \<Rightarrow> Part list option" where
  "read_parts h a =
     (case lookup h a of Some (ArrayCell refs) \<Rightarrow> those (map (read_part h) refs) | other \<Rightarrow> None)"

definition read_content :: "store \<Rightarrow> nat \<Rightarrow> Content option" where
  "read_content h a =
     (case lookup h a of
        Some (ContentCell r None) \<Rightarrow> Some \<lparr>role = r, parts = None\<rparr>
      | Some (ContentCell r (Some pa)) \<Rightarrow>
          map_option (\<lambda>ps. \<lparr>role = r, parts = Some ps\<rparr>) (read_parts h pa)
      | other \<Rightarrow> None)"

definition read_history :: "store \<Rightarrow> nat \<Rightarrow> Content list option" where
  "read_history h a =
     (case lookup h a of
        Some (ArrayCell refs) \<Rightarrow> those (map (read_content h) refs)
      | other \<Rightarrow> None)"

text \<open>
  \<open>structuredClone\<close> serialises the value and builds it anew: every array and object of
  the result is a new cell.
\<close>

fun alloc_parts :: "store \<Rightarrow> Part list \<Rightarrow> store \<times> nat list" where
  "alloc_parts h [] = (h, [])"
| "alloc_parts h (p # ps) =
     (fst (alloc_parts (h @ [PartCell p]) ps), length h # snd (alloc_parts (h @ [PartCell p]) ps))"

definition alloc_array :: "store \<Rightarrow> nat list \<Rightarrow> store \<times> nat" where
  "alloc_array h refs = (h @ [ArrayCell refs], length h)"

definition alloc_content :: "store \<Rightarrow> Content \<Rightarrow> store \<times> nat" where
  "alloc_content h c =
     (case parts c of
        None \<Rightarrow> (h @ [ContentCell (role c) None], length h)
      | Some ps \<Rightarrow>
          (let h1 = fst (alloc_parts h ps);
               partsArray = alloc_array h1 (snd (alloc_parts h ps))
           in (fst partsArray @ [ContentCell (role c) (Some (snd partsArray))],
               length (fst partsArray))))"

fun alloc_contents :: "store \<Rightarrow> Content list \<Rightarrow> store \<times> nat list" where
  "alloc_contents h [] = (h, [])"
| "alloc_contents h (c # cs) =
     (fst (alloc_contents (fst (alloc_content h c)) cs),
      snd (alloc_content h c) # snd (alloc_contents (fst (alloc_content h c)) cs))"

definition alloc_history :: "store \<Rightarrow> Content list \<Rightarrow> store \<times> nat" where
  "alloc_history h cs =
     alloc_array (fst (alloc_contents h cs)) (snd (alloc_contents h cs))"

definition structuredClone :: "store \<Rightarrow> nat \<Rightarrow> (store \<times> nat) option" where
  "structuredClone h a = map_option (alloc_history h) (read_history h a)"

text \<open>
  \<open>getHistory\<close> on the store: \<open>historyRef\<close> is the array that \<open>this.history\<close> names. With
  \<open>curated\<close> the clone is taken of the array that \<open>extractCuratedHistory\<close> builds, whose
  elements are turns of the stored history; that array is dropped after the call and is
  left out of the store. The result is the store after the call and the address of the
  returned array; \<open>None\<close> when the call does not return.
\<close>

definition getHistory :: "bool \<Rightarrow> nat \<Rightarrow> store \<Rightarrow> (store \<times> nat) option" where
  "getHistory curated historyRef h =
     (case read_history h historyRef of
        None \<Rightarrow> None
      | Some v \<Rightarrow>
          (case (if curated then extractCuratedHistory v else Some v) of
             None \<Rightarrow> None
           | Some v' \<Rightarrow> Some (alloc_history h v')))"

text \<open>The value of a returned history, read in the store that came with it.\<close>

definition result_value :: "(store \<times> nat) option \<Rightarrow> Content list option" where
  "result_value r = (case r of None \<Rightarrow> None | Some x \<Rightarrow> read_history (fst x) (snd x))"

text \<open>The cells that make up a history: its array, its turns, their parts arrays and parts.\<close>

definition cells_of_parts :: "store \<Rightarrow> nat \<Rightarrow> nat set" where
  "cells_of_parts h pa =
     {pa} \<union> (case lookup h pa of Some (ArrayCell refs) \<Rightarrow> set refs | other \<Rightarrow> {})"

definition cells_of_content :: "store \<Rightarrow> nat \<Rightarrow> nat set" where
  "cells_of_content h a =
     {a} \<union> (case lookup h a of
               Some (ContentCell r (Some pa)) \<Rightarrow> cells_of_parts h pa
             | other \<Rightarrow> {})"

definition cells_of_history :: "store \<Rightarrow> nat \<Rightarrow> nat set" where
  "cells_of_history h a =
     {a} \<union> (case lookup h a of
               Some (ArrayCell refs) \<Rightarrow> (\<Union>r\<in>set refs. cells_of_content h r)
             | other \<Rightarrow> {})"

section \<open>Calls of sendMessage that overlap (core/geminiChat.ts)\<close>

text \<open>
  \<open>sendMessage\<close> is an \<open>async\<close> function: it runs until an \<open>await\<close>, gives up control, and
  is resumed once the awaited promise is settled. Between two \<open>await\<close>s nothing else
  runs. A call is a task with the place where it is suspended:
  \<^item> \<open>AtSendPromise p\<close>: at \<open>await this.sendPromise\<close>, where \<open>this.sendPromise\<close> was the
    promise \<open>p\<close> when the call was made;
  \<^item> \<open>AtLogRequest\<close>: at \<open>await this._logApiRequest(...)\<close>, the request contents built;
  \<^item> \<open>AtTransport\<close>: at \<open>await retryWithBackoff(apiCall, ...)\<close>, the transport invoked;
  \<^item> \<open>AtLogResponse\<close>: at \<open>await this._logApiResponse(...)\<close>;
  \<^item> \<open>AtCommitCatch\<close>: at \<open>await this.sendPromise.catch(...)\<close>, the history recorded;
  \<^item> \<open>Returned\<close> and \<open>Thrown\<close>: done.
  Telemetry is left out of this model; the history and the order of events are kept.
\<close>

datatype Place =
  AtSendPromise nat | AtLogRequest | AtTransport | AtLogResponse | AtCommitCatch
  | Returned | Thrown

record Task =
  place :: Place
  taskUserContent :: Content
  taskRequestContents :: "Content list"
  taskOutcome :: "(JsError + GenerateContentResponse) option"

datatype Event =
  Called nat | TransportBegins nat "Content list" | TransportEnds nat
  | Commits nat | Returns nat | Throws nat

text \<open>
  The session with its tasks. A promise is named by its index in \<open>promises\<close>, which
  holds whether it is settled; \<open>sendPromiseRef\<close> is the promise that \<open>this.sendPromise\<close>
  names. The session starts with \<open>this.sendPromise = Promise.resolve()\<close>.
\<close>

record Scheduler =
  chatHistory :: "Content list"
  promises :: "bool list"
  sendPromiseRef :: nat
  tasks :: "Task list"
  events :: "Event list"

definition start :: "Content list \<Rightarrow> Scheduler" where
  "start h = \<lparr>chatHistory = h, promises = [True], sendPromiseRef = 0, tasks = [], events = []\<rparr>"

text \<open>
  What can happen next: the application calls \<open>sendMessage\<close>; a suspended task is resumed;
  the transport of a task comes back with a response or an error.
\<close>

datatype Action =
  Call Content | Resume nat | TransportResult nat "JsError + GenerateContentResponse"

text \<open>
  \<open>this.sendPromise = p\<close> for a promise that is settled when it is made:
  \<open>Promise.resolve()\<close>, and the promise of the \<open>async\<close> arrow function called on the
  spot, whose body has no \<open>await\<close> and has run to its end when the promise is assigned.
\<close>

definition assign_settled_promise :: "Scheduler \<Rightarrow> Scheduler" where
  "assign_settled_promise s =
     s\<lparr>promises := promises s @ [True], sendPromiseRef := length (promises s)\<rparr>"

definition set_task :: "nat \<Rightarrow> Task \<Rightarrow> Scheduler \<Rightarrow> Scheduler" where
  "set_task k t s = s\<lparr>tasks := (tasks s)[k := t]\<rparr>"

definition emit :: "Event \<Rightarrow> Scheduler \<Rightarrow> Scheduler" where
  "emit e s = s\<lparr>events := events s @ [e]\<rparr>"

text \<open>
  One resumption of task \<open>k\<close>, from its place to the next \<open>await\<close> or to the end;
  \<open>None\<close> when the task cannot run (it is done, or what it awaits is not settled) or
  does not stop running.
\<close>

definition resume :: "(Content \<Rightarrow> bool) \<Rightarrow> nat \<Rightarrow> Scheduler \<Rightarrow> Scheduler option" where
  "resume isFR k s =
     (if k < length (tasks s) then
        (let t = tasks s ! k in
         case place t of
           AtSendPromise p \<Rightarrow>
             if p < length (promises s) \<and> promises s ! p
             then (case extractCuratedHistory (chatHistory s) of
                     None \<Rightarrow> None
                   | Some curated \<Rightarrow>
                       Some (set_task k (t\<lparr>place := AtLogRequest,
                               taskRequestContents := curated @ [taskUserContent t]\<rparr>) s))
             else None
         | AtLogRequest \<Rightarrow>
             Some (emit (TransportBegins k (taskRequestContents t))
                     (set_task k (t\<lparr>place := AtTransport\<rparr>) s))
         | AtTransport \<Rightarrow>
             (case taskOutcome t of
                None \<Rightarrow> None
              | Some (Inl e) \<Rightarrow>
                  Some (emit (Throws k)
                          (set_task k (t\<lparr>place := Thrown\<rparr>) (assign_settled_promise s)))
              | Some (Inr response) \<Rightarrow> Some (set_task k (t\<lparr>place := AtLogResponse\<rparr>) s))
         | AtLogResponse \<Rightarrow>
             (case taskOutcome t of
                Some (Inr response) \<Rightarrow>
                  (case extractCuratedHistory (chatHistory s) of
                     None \<Rightarrow> None
                   | Some curated \<Rightarrow>
                       (let outputContent =
                              (case candidates response of
                                 None \<Rightarrow> None
                               | Some [] \<Rightarrow> None
                               | Some (c # cs) \<Rightarrow> candidateContent c);
                            afcHistory =
                              (case automaticFunctionCallingHistory response of
                                 None \<Rightarrow> []
                               | Some full \<Rightarrow> drop (length curated) full);
                            modelOutput = (case outputContent of None \<Rightarrow> [] | Some c \<Rightarrow> [c])
                        in case recordHistory isFR (taskUserContent t) modelOutput afcHistory
                                  (chatHistory s) of
                             None \<Rightarrow> None
                           | Some hist \<Rightarrow>
                               Some (emit (Commits k)
                                       (set_task k (t\<lparr>place := AtCommitCatch\<rparr>)
                                          ((assign_settled_promise s)\<lparr>chatHistory := hist\<rparr>)))))
              | other \<Rightarrow> None)
         | AtCommitCatch \<Rightarrow>
             Some (emit (Returns k) (set_task k (t\<lparr>place := Returned\<rparr>) s))
         | Returned \<Rightarrow> None
         | Thrown \<Rightarrow> None)
      else None)"

definition step :: "(Content \<Rightarrow> bool) \<Rightarrow> Action \<Rightarrow> Scheduler \<Rightarrow> Scheduler option" where
  "step isFR a s =
     (case a of
        Call u \<Rightarrow>
          Some (emit (Called (length (tasks s)))
                  (s\<lparr>tasks := tasks s @ [\<lparr>place = AtSendPromise (sendPromiseRef s),
                                            taskUserContent = u, taskRequestContents = [],
                                            taskOutcome = None\<rparr>]\<rparr>))
      | Resume k \<Rightarrow> resume isFR k s
      | TransportResult k r \<Rightarrow>
          (if k < length (tasks s) \<and> place (tasks s ! k) = AtTransport
              \<and> taskOutcome (tasks s ! k) = None
           then Some (emit (TransportEnds k) (set_task k ((tasks s ! k)\<lparr>taskOutcome := Some r\<rparr>) s))
           else None))"

fun run :: "(Content \<Rightarrow> bool) \<Rightarrow> Action list \<Rightarrow> Scheduler \<Rightarrow> Scheduler option" where
  "run isFR [] s = Some s"
| "run isFR (a # as) s = (case step isFR a s of None \<Rightarrow> None | Some s' \<Rightarrow> run isFR as s')"

text \<open>
  The order the claim asks for, in a sequence of events: the transport of the second call
  (task 1) begins only after the first call (task 0) has committed or thrown.
\<close>

fun serialized :: "Event list \<Rightarrow> bool \<Rightarrow> bool" where
  "serialized [] firstDone = True"
| "serialized (e # es) firstDone =
     (case e of
        Commits k \<Rightarrow> serialized es (firstDone \<or> k = 0)
      | Throws k \<Rightarrow> serialized es (firstDone \<or> k = 0)
      | TransportBegins k c \<Rightarrow> (if k = 1 \<and> \<not> firstDone then False else serialized es firstDone)
      | other \<Rightarrow> serialized es firstDone)"

section \<open>Sample values\<close>

text \<open>Concrete inputs on which the theorems below are evaluated.\<close>

definition sample_env :: Env where
  "sample_env = \<lparr>today = ''2025-08-11'',
                  toISOString = (\<lambda>t. Some ''2025-08-11T10:00:00.000Z''),
                  safeJsonStringify = (\<lambda>e. ''{'' @ [CHR 0x22] @ ''eventType'' @ [CHR 0x22] @ '':''
                       @ [CHR 0x22] @ ''api_response'' @ [CHR 0x22] @ ''}''),
                  appendThrows = (\<lambda>p. False)\<rparr>"

definition sample_event :: UserBehaviorEvent where
  "sample_event = \<lparr>eventType = api_response, timestamp = 1754906400000,
     model = Some ''test-model'', promptId = Some ''test-prompt-id'',
     requestId = Some ''req-1'', content = None,
     inputTokenCount = Some 50, outputTokenCount = Some 75, durationMs = Some 1234,
     error = None, errorType = None, authType = None, operationType = None,
     toolsCalled = None, requestContext = None, estimatedTokens = None,
     conversationTurn = None, hasFileContext = None, systemPromptLength = None,
     responseType = None\<rparr>"

definition sample_logger :: UserBehaviorLogger where
  "sample_logger = \<lparr>logDir = ''logs'',
     currentLogFilePath = ''logs/2025-08-11-test-ses.jsonl'',
     currentRollNumber = 0, maxFileSize = 10 * 1024 * 1024,
     studentIdHash = ''743a8f8b30e089da'', machineIdHash = ''72d7bfe0e0f3480f''\<rparr>"

definition config_on :: Config where
  "config_on = \<lparr>telemetryEnabled = True, sessionId = ''test-session-id''\<rparr>"

definition config_off :: Config where
  "config_off = \<lparr>telemetryEnabled = False, sessionId = ''test-session-id''\<rparr>"

text \<open>The line that \<open>sample_env\<close> serialises, 29 bytes with its newline.\<close>

definition sample_line :: string where
  "sample_line = ''{'' @ [CHR 0x22] @ ''eventType'' @ [CHR 0x22] @ '':''
                       @ [CHR 0x22] @ ''api_response'' @ [CHR 0x22] @ ''}'' @ [CHR 0x0A]"

text \<open>
  The active file 29 bytes short of the cap of 10485760 bytes, and 28 bytes short of it.
\<close>

definition fs_at_cap :: FileSystem where
  "fs_at_cap = [''logs/2025-08-11-test-ses.jsonl'' \<mapsto> replicate 10485731 (CHR ''x'')]"

definition fs_over_cap :: FileSystem where
  "fs_over_cap = [''logs/2025-08-11-test-ses.jsonl'' \<mapsto> replicate 10485732 (CHR ''x'')]"

text \<open>Turns with one text part.\<close>

definition textPart :: "string \<Rightarrow> Part" where
  "textPart s = \<lparr>partText = Some s, thought = None, functionCall = None,
                 functionResponse = None, otherKeys = 0\<rparr>"

definition userText :: "string \<Rightarrow> Content" where
  "userText s = \<lparr>role = Some ''user'', parts = Some [textPart s]\<rparr>"

definition modelText :: "string \<Rightarrow> Content" where
  "modelText s = \<lparr>role = Some ''model'', parts = Some [textPart s]\<rparr>"

text \<open>
  A history whose second exchange failed with an empty model turn, and the same history
  with a further user turn.
\<close>

definition sample_history :: "Content list" where
  "sample_history = [userText ''hello'', modelText ''Hi there'', userText ''hi'', modelText '''']"

definition sample_request :: "Content list" where
  "sample_request = [userText ''hi'', modelText '''', userText ''read @notes.md'']"

text \<open>A session, responses, chunks and call environments.\<close>

definition sample_usage :: UsageMetadata where
  "sample_usage = \<lparr>promptTokenCount = Some 50, candidatesTokenCount = Some 75,
                    totalTokenCount = Some 125\<rparr>"

definition sample_chat :: GeminiChat where
  "sample_chat = \<lparr>history = sample_history, loggedResponses = [],
     currentModel = ''qwen3-coder-plus'', contentGeneratorAuthType = Some ''qwen-oauth'',
     systemInstruction = None, telemetry = []\<rparr>"

definition text_response :: "string \<Rightarrow> UsageMetadata option \<Rightarrow> GenerateContentResponse" where
  "text_response s u = \<lparr>candidates = Some [\<lparr>candidateContent = Some (modelText s)\<rparr>],
     usageMetadata = u, automaticFunctionCallingHistory = None, isChunk = False\<rparr>"

definition sample_isFunctionResponse :: "Content \<Rightarrow> bool" where
  "sample_isFunctionResponse c =
     (role c = Some ''user'' \<and> parts c \<noteq> None
      \<and> list_all (\<lambda>p. functionResponse p \<noteq> None) (parts_of c))"

text \<open>A transport that fails with an error the retry policy lets through.\<close>

definition failing_env :: "GenerateContentResponse CallEnv" where
  "failing_env = \<lparr>newRequestId = ''req-1'', startTime = 1000, endTime = 1250,
     retryWithBackoff = (\<lambda>m contents. (m, Inl (ErrorObject ''Error'' ''401 Unauthorized''))),
     isFunctionResponse = sample_isFunctionResponse\<rparr>"

definition sample_response :: GenerateContentResponse where
  "sample_response = text_response ''Notes read.'' (Some sample_usage)"

text \<open>A transport that answers with one response carrying usage metadata.\<close>

definition answering_env :: "GenerateContentResponse CallEnv" where
  "answering_env = \<lparr>newRequestId = ''req-2'', startTime = 1000, endTime = 1250,
     retryWithBackoff = (\<lambda>m contents. (m, Inr sample_response)),
     isFunctionResponse = sample_isFunctionResponse\<rparr>"

text \<open>
  A stream of three chunks whose last valid chunk with usage metadata is the second one,
  and a stream whose only chunk with usage metadata is a closing chunk with an empty
  text, which is not a valid response.
\<close>

definition usage_stream :: Stream where
  "usage_stream = ([text_response ''Notes'' None, text_response '' read'' (Some sample_usage),
                    text_response ''.'' None], None)"

definition closing_usage_stream :: Stream where
  "closing_usage_stream = ([text_response ''Notes read.'' None,
                            text_response '''' (Some sample_usage)], None)"

definition streaming_env :: "Stream \<Rightarrow> Stream CallEnv" where
  "streaming_env s = \<lparr>newRequestId = ''req-3'', startTime = 1000, endTime = 1250,
     retryWithBackoff = (\<lambda>m contents. (m, Inr s)),
     isFunctionResponse = sample_isFunctionResponse\<rparr>"

text \<open>A store that holds \<open>sample_history\<close>, with the history array at address 12.\<close>

definition sample_store :: store where
  "sample_store = fst (alloc_history [] sample_history)"

text \<open>
  A second \<open>sendMessage\<close> made while the first one waits for the model: the first call
  runs up to its transport call, then the second call is made and runs up to its own.
\<close>

definition overlap_schedule :: "Action list" where
  "overlap_schedule =
     [Call (userText ''first''), Resume 0, Resume 0,
      Call (userText ''second''), Resume 1, Resume 1]"

definition places :: "Scheduler \<Rightarrow> Place list" where
  "places s = map place (tasks s)"

text \<open>The second call made after the first has returned.\<close>

definition sequential_schedule :: "Action list" where
  "sequential_schedule =
     [Call (userText ''first''), Resume 0, Resume 0,
      TransportResult 0 (Inr (text_response ''one'' None)), Resume 0, Resume 0, Resume 0,
      Call (userText ''second''), Resume 1, Resume 1]"

section \<open>Properties of the log writer\<close>

subsection \<open>Telemetry switched off\<close>

text \<open>
  Claim C10. With telemetry disabled in the configuration, \<open>logEvent\<close> does nothing
  for any event: no file gains a byte and no file appears, and the rotation state
  (active path and roll number, as every other field of the logger) is what it was.
\<close>

theorem logEvent_disabled_noop:
  assumes "\<not> telemetryEnabled cfg"
  shows "logEvent env cfg ev (lg, fs) = (lg, fs)"
  using assms by (simp add: logEvent_def)

theorem logEvent_disabled_noop_witness:
  "\<not> telemetryEnabled config_off
   \<and> logEvent sample_env config_off sample_event (sample_logger, Map.empty)
       = (sample_logger, Map.empty)"
  using logEvent_disabled_noop [of config_off sample_env sample_event sample_logger Map.empty]
  by (simp add: config_off_def)

subsection \<open>Strings and paths on examples\<close>

lemma path_join_examples:
  "path_join ''/home/u/project/logs'' ''2025-08-11-abcdef12-3.jsonl''
     = ''/home/u/project/logs/2025-08-11-abcdef12-3.jsonl''"
  "path_join ''/a/b/../logs/'' ''./x//y/../2025.jsonl'' = ''/a/logs/x/2025.jsonl''"
  "path_join ''../..'' ''../a/../../x'' = ''../../../../x''"
  "path_join ''/..'' ''../a/../../x/'' = ''/x/''"
  "path_join ''a/'' ''..'' = ''.''"
  "path_join ''a/..'' ''./'' = ''./''"
  "path_join '''' '''' = ''.''"
  by code_simp+

lemma js_string_examples:
  "js_length ''abc'' = 3"
  "js_length [char_of (195 :: nat), char_of (169 :: nat)] = 1"
  "js_length [char_of (240 :: nat), char_of (159 :: nat), char_of (152 :: nat), char_of (128 :: nat)] = 2"
  "substring0 8 ''0123456789'' = ''01234567''"
  "substring0 2 [char_of (195 :: nat), char_of (169 :: nat), CHR ''a'', CHR ''b'']
     = [char_of (195 :: nat), char_of (169 :: nat), CHR ''a'']"
  "substring0 1 [char_of (240 :: nat), char_of (159 :: nat), char_of (152 :: nat), char_of (128 :: nat)]
     = replacement_character"
  by code_simp+

subsection \<open>File names determine the roll number\<close>

lemma digit_val_digit_char: "d < 10 \<Longrightarrow> digit_val (digit_char d) = d"
  by (simp add: digit_val_def digit_char_def)

lemma nat_of_string_snoc: "nat_of_string (s @ [c]) = 10 * nat_of_string s + digit_val c"
  by (simp add: nat_of_string_def)

lemma nat_of_string_of_nat: "nat_of_string (string_of_nat n) = n"
proof (induction n rule: string_of_nat.induct)
  case (1 n)
  show ?case
  proof (cases "n < 10")
    case True
    then show ?thesis
      by (subst string_of_nat.simps) (simp add: nat_of_string_def digit_val_digit_char)
  next
    case False
    then have "nat_of_string (string_of_nat n)
        = 10 * nat_of_string (string_of_nat (n div 10)) + digit_val (digit_char (n mod 10))"
      by (subst string_of_nat.simps) (simp add: nat_of_string_snoc)
    also have "\<dots> = 10 * (n div 10) + n mod 10"
      using 1 False by (simp add: digit_val_digit_char)
    finally show ?thesis by simp
  qed
qed

lemma string_of_nat_inj: "string_of_nat a = string_of_nat b \<Longrightarrow> a = b"
  by (metis nat_of_string_of_nat)

lemma rollSuffix_inj: "rollSuffix a = rollSuffix b \<Longrightarrow> a = b"
  by (auto simp: rollSuffix_def split: if_splits dest: string_of_nat_inj)

lemma generateLogFilePath_log_path:
  "generateLogFilePath env cfg lg
     = log_path (logDir lg) (today env) (sessionId cfg) (currentRollNumber lg)"
  by (simp add: generateLogFilePath_def rollSuffix_def log_path_def Let_def)

subsection \<open>The last segment of a joined path\<close>

lemma split_slash_ne [simp]: "split_slash p \<noteq> []"
  by (induction p) (auto split: list.splits)

lemma split_slash_snoc_free:
  "CHR ''/'' \<notin> set b \<Longrightarrow>
   split_slash (a @ b) = butlast (split_slash a) @ [last (split_slash a) @ b]"
proof (induction a)
  case Nil
  then show ?case by (induction b) (auto split: list.splits)
next
  case (Cons c a)
  obtain x xs where sp: "split_slash a = x # xs"
    by (cases "split_slash a") simp_all
  show ?case
    using Cons sp by (cases "xs = []") simp_all
qed

lemma split_slash_append: "split_slash (a @ CHR ''/'' # b) = split_slash a @ split_slash b"
proof (induction a)
  case Nil
  show ?case by simp
next
  case (Cons c a)
  obtain x xs where sp: "split_slash a = x # xs"
    by (cases "split_slash a") simp_all
  show ?case using Cons sp by simp
qed

lemma last_segment_append_free:
  "CHR ''/'' \<notin> set b \<Longrightarrow> last_segment (a @ b) = last_segment a @ b"
  by (simp add: last_segment_def split_slash_snoc_free)

lemma last_segment_slash: "last_segment (a @ CHR ''/'' # b) = last_segment b"
  by (simp add: last_segment_def split_slash_append)

lemma split_slash_free: "\<forall>s\<in>set (split_slash p). CHR ''/'' \<notin> set s"
proof (induction p)
  case Nil
  show ?case by simp
next
  case (Cons c p)
  obtain x xs where sp: "split_slash p = x # xs"
    by (cases "split_slash p") simp_all
  show ?case using Cons sp by simp
qed

lemma last_segment_free: "CHR ''/'' \<notin> set (last_segment p)"
  using split_slash_free [of p] last_in_set [OF split_slash_ne [of p]]
  unfolding last_segment_def by blast

lemma last_segment_Nil_iff: "last_segment p = [] \<longleftrightarrow> p = [] \<or> last p = CHR ''/''"
proof (cases p rule: rev_cases)
  case Nil
  then show ?thesis by (simp add: last_segment_def)
next
  case (snoc q c)
  show ?thesis
  proof (cases "c = CHR ''/''")
    case True
    with snoc show ?thesis using last_segment_slash [of q "[]"] by (simp add: last_segment_def)
  next
    case False
    then have "last_segment (q @ [c]) = last_segment q @ [c]"
      using last_segment_append_free [of "[c]" q] by simp
    with snoc False show ?thesis by simp
  qed
qed

lemma normalizeString_snoc:
  "\<not> special_segment s \<Longrightarrow>
   normalizeString allow res (xs @ [s]) = normalizeString allow res xs @ [s]"
proof (induction xs arbitrary: res)
  case Nil
  then show ?case by (simp add: special_segment_def)
next
  case (Cons x xs)
  have ih: "normalizeString allow r (xs @ [s]) = normalizeString allow r xs @ [s]" for r
    by (rule Cons.IH [OF Cons.prems])
  show ?case
  proof (cases allow)
    case True
    with ih have "normalizeString True r (xs @ [s]) = normalizeString True r xs @ [s]" for r
      by simp
    with True show ?thesis by simp
  next
    case False
    with ih have "normalizeString False r (xs @ [s]) = normalizeString False r xs @ [s]" for r
      by simp
    with False show ?thesis by simp
  qed
qed

lemma join_slash_snoc:
  "join_slash (ys @ [s]) = (if ys = [] then s else join_slash ys @ CHR ''/'' # s)"
  by (induction ys rule: join_slash.induct) simp_all

lemma last_segment_normalize:
  assumes "\<not> special_segment (last_segment p)"
  shows "last_segment (path_normalize p) = last_segment p"
proof -
  let ?s = "last_segment p"
  from assms have ne: "p \<noteq> []" and nt: "last p \<noteq> CHR ''/''"
    using last_segment_Nil_iff [of p] by (auto simp: special_segment_def)
  have sp: "split_slash p = butlast (split_slash p) @ [?s]"
    by (simp add: last_segment_def)
  define ys where "ys = normalizeString (hd p \<noteq> CHR ''/'') [] (butlast (split_slash p))"
  have ns: "normalizeString (hd p \<noteq> CHR ''/'') [] (split_slash p) = ys @ [?s]"
    by (subst sp) (simp add: normalizeString_snoc [OF assms] ys_def)
  have sne: "?s \<noteq> []" using assms by (simp add: special_segment_def)
  have free: "CHR ''/'' \<notin> set ?s" by (rule last_segment_free)
  have jn: "join_slash (ys @ [?s]) \<noteq> []" using sne by (simp add: join_slash_snoc)
  have b0: "last_segment ?s = ?s"
    using last_segment_append_free [OF free, of "[]"] by (simp add: last_segment_def)
  have b: "last_segment (join_slash (ys @ [?s])) = ?s"
    using b0 by (simp add: join_slash_snoc last_segment_slash)
  have b2: "last_segment (CHR ''/'' # join_slash (ys @ [?s])) = ?s"
    using b last_segment_slash [of "[]" "join_slash (ys @ [?s])"] by simp
  show ?thesis
    using ne nt jn b b2 by (simp add: path_normalize_def Let_def ns)
qed

lemma last_segment_path_join:
  assumes "\<not> special_segment (last_segment name)"
  shows "last_segment (path_join dir name) = last_segment name"
proof -
  from assms have ne: "name \<noteq> []" by (auto simp: special_segment_def last_segment_def)
  show ?thesis
  proof (cases "dir = []")
    case True
    then show ?thesis using ne assms by (simp add: path_join_def last_segment_normalize)
  next
    case False
    have "last_segment (dir @ CHR ''/'' # name) = last_segment name" by (rule last_segment_slash)
    then show ?thesis using False ne assms by (simp add: path_join_def last_segment_normalize)
  qed
qed

lemma last_segment_date_prefix:
  assumes "CHR ''/'' \<notin> set d"
  shows "last_segment (d @ x) = (if CHR ''/'' \<in> set x then last_segment x else d @ x)"
proof (cases "CHR ''/'' \<in> set x")
  case True
  then obtain x1 x2 where x: "x = x1 @ CHR ''/'' # x2" by (auto dest: split_list)
  have "last_segment ((d @ x1) @ CHR ''/'' # x2) = last_segment x2" by (rule last_segment_slash)
  moreover have "last_segment (x1 @ CHR ''/'' # x2) = last_segment x2" by (rule last_segment_slash)
  ultimately show ?thesis using True x by simp
next
  case False
  with assms have "CHR ''/'' \<notin> set (d @ x)" by simp
  from last_segment_append_free [OF this, of "[]"] False show ?thesis
    by (simp add: last_segment_def)
qed

lemma digit_char_not_slash: "d < 10 \<Longrightarrow> digit_char d \<noteq> CHR ''/''"
proof
  assume d: "d < 10" and eq: "digit_char d = CHR ''/''"
  from eq have "(of_char (digit_char d) :: nat) = of_char (CHR ''/'')" by simp
  with d show False by (simp add: digit_char_def)
qed

lemma string_of_nat_free: "CHR ''/'' \<notin> set (string_of_nat n)"
proof (induction n rule: string_of_nat.induct)
  case (1 n)
  show ?case
  proof (cases "n < 10")
    case True
    then show ?thesis
      by (subst string_of_nat.simps) (simp add: digit_char_not_slash [THEN not_sym])
  next
    case False
    then show ?thesis
      using 1 by (subst string_of_nat.simps) (simp add: digit_char_not_slash [THEN not_sym])
  qed
qed

lemma rollSuffix_free: "CHR ''/'' \<notin> set (rollSuffix r @ ''.jsonl'')"
  by (simp add: rollSuffix_def string_of_nat_free)

lemma special_segment_length: "special_segment s \<Longrightarrow> length s \<le> 2"
  by (auto simp: special_segment_def)

lemma last_segment_log_path:
  "last_segment (log_path dir d sid r)
     = last_segment (d @ ''-'' @ substring0 8 sid) @ rollSuffix r @ ''.jsonl''"
proof -
  let ?name = "d @ ''-'' @ substring0 8 sid @ rollSuffix r @ ''.jsonl''"
  have seg: "last_segment ?name
      = last_segment (d @ ''-'' @ substring0 8 sid) @ rollSuffix r @ ''.jsonl''"
    using last_segment_append_free [where b = "rollSuffix r @ ''.jsonl''"
        and a = "d @ ''-'' @ substring0 8 sid", OF rollSuffix_free]
    by simp
  have "\<not> special_segment (last_segment ?name)"
  proof
    assume "special_segment (last_segment ?name)"
    from special_segment_length [OF this] show False unfolding seg by simp
  qed
  from last_segment_path_join [OF this] seg show ?thesis
    by (simp add: log_path_def)
qed

lemma log_path_inj:
  assumes "log_path dir d1 sid r1 = log_path dir d2 sid r2" and "length d1 = length d2"
    and "CHR ''/'' \<notin> set d1" and "CHR ''/'' \<notin> set d2"
  shows "r1 = r2"
proof -
  let ?x = "''-'' @ substring0 8 sid"
  from assms(1) have "last_segment (log_path dir d1 sid r1) = last_segment (log_path dir d2 sid r2)"
    by simp
  then have eq: "last_segment (d1 @ ?x) @ rollSuffix r1 @ ''.jsonl''
      = last_segment (d2 @ ?x) @ rollSuffix r2 @ ''.jsonl''"
    unfolding last_segment_log_path by simp
  have "length (last_segment (d1 @ ?x)) = length (last_segment (d2 @ ?x))"
    unfolding last_segment_date_prefix [OF assms(3)] last_segment_date_prefix [OF assms(4)]
    using assms(2) by simp
  from append_eq_append_conv [THEN iffD1, OF disjI1, OF this eq]
  have "rollSuffix r1 @ ''.jsonl'' = rollSuffix r2 @ ''.jsonl''"
    by (rule conjunct2)
  then show ?thesis using rollSuffix_inj by blast
qed

subsection \<open>What one call, and a run of calls, may change\<close>

lemma checkAndRollFile_inv:
  assumes "path_inv n cfg lg" "length (today env) = n" "CHR ''/'' \<notin> set (today env)"
  shows "path_inv n cfg (checkAndRollFile env cfg fs line lg)"
proof (cases "checkAndRollFile env cfg fs line lg = lg")
  case True
  with assms(1) show ?thesis by simp
next
  case False
  then have "checkAndRollFile env cfg fs line lg
      = lg\<lparr>currentRollNumber := currentRollNumber lg + 1,
           currentLogFilePath := log_path (logDir lg) (today env) (sessionId cfg)
                                   (currentRollNumber lg + 1)\<rparr>"
    by (auto simp: checkAndRollFile_def generateLogFilePath_log_path Let_def
        split: option.splits if_splits)
  then show ?thesis
    unfolding path_inv_def using assms(2,3)
    by (intro exI [of _ "today env"]) simp
qed

lemma checkAndRollFile_frame:
  "logDir (checkAndRollFile env cfg fs line lg) = logDir lg"
  "currentRollNumber lg \<le> currentRollNumber (checkAndRollFile env cfg fs line lg)"
  by (auto simp: checkAndRollFile_def Let_def split: option.splits)

lemma logEvent_logger:
  "fst (logEvent env cfg ev (lg, fs)) = lg \<or>
   (\<exists>line. fst (logEvent env cfg ev (lg, fs)) = checkAndRollFile env cfg fs line lg)"
  by (auto simp: logEvent_def Let_def split: option.splits sum.splits)

lemma logEvent_inv:
  assumes "path_inv n cfg lg" "length (today env) = n" "CHR ''/'' \<notin> set (today env)"
  shows "path_inv n cfg (fst (logEvent env cfg ev (lg, fs)))"
  using logEvent_logger [where env = env and cfg = cfg and ev = ev and lg = lg and fs = fs]
    checkAndRollFile_inv [OF assms] assms(1)
  by auto

lemma logEvent_frame:
  "logDir (fst (logEvent env cfg ev (lg, fs))) = logDir lg"
  "currentRollNumber lg \<le> currentRollNumber (fst (logEvent env cfg ev (lg, fs)))"
  using logEvent_logger [where env = env and cfg = cfg and ev = ev and lg = lg and fs = fs]
    checkAndRollFile_frame
  by auto

lemma logEvent_fs_other:
  assumes "p \<noteq> currentLogFilePath (fst (logEvent env cfg ev (lg, fs)))"
  shows "snd (logEvent env cfg ev (lg, fs)) p = fs p"
  using assms
  by (auto simp: logEvent_def Let_def appendFileSync_def split: option.splits sum.splits if_splits)

lemma logEvents_old_untouched:
  assumes "path_inv n cfg lg"
    and "\<forall>x\<in>set xs. length (today (fst x)) = n \<and> CHR ''/'' \<notin> set (today (fst x))"
    and "p = log_path (logDir lg) d (sessionId cfg) r" "length d = n" "r < currentRollNumber lg"
    and "CHR ''/'' \<notin> set d"
  shows "snd (logEvents cfg xs (lg, fs)) p = fs p"
  using assms
proof (induction xs arbitrary: lg fs)
  case Nil
  then show ?case by simp
next
  case (Cons x xs)
  obtain lg1 fs1 where st: "logEvent (fst x) cfg (snd x) (lg, fs) = (lg1, fs1)"
    by (cases "logEvent (fst x) cfg (snd x) (lg, fs)")
  have len: "length (today (fst x)) = n" and free: "CHR ''/'' \<notin> set (today (fst x))"
    using Cons.prems(2) by simp_all
  have rest: "\<forall>x\<in>set xs. length (today (fst x)) = n \<and> CHR ''/'' \<notin> set (today (fst x))"
    using Cons.prems(2) by simp
  have inv1: "path_inv n cfg lg1"
    using logEvent_inv [OF Cons.prems(1) len free, where ev = "snd x" and fs = fs] st by simp
  have dir1: "logDir lg1 = logDir lg" and roll1: "currentRollNumber lg \<le> currentRollNumber lg1"
    using logEvent_frame [where env = "fst x" and cfg = cfg and ev = "snd x" and lg = lg and fs = fs]
      st by simp_all
  have ne: "p \<noteq> currentLogFilePath lg1"
  proof
    assume eq: "p = currentLogFilePath lg1"
    from inv1 obtain d1 where d1: "length d1 = n" "CHR ''/'' \<notin> set d1"
      "currentLogFilePath lg1 = log_path (logDir lg1) d1 (sessionId cfg) (currentRollNumber lg1)"
      by (auto simp: path_inv_def)
    from eq d1 Cons.prems(3) dir1
    have "log_path (logDir lg) d (sessionId cfg) r
        = log_path (logDir lg) d1 (sessionId cfg) (currentRollNumber lg1)"
      by simp
    then have "r = currentRollNumber lg1"
      by (rule log_path_inj) (simp_all add: Cons.prems(4,6) d1(1,2))
    with roll1 Cons.prems(5) show False by simp
  qed
  have step: "fs1 p = fs p"
    using logEvent_fs_other [where p = p and env = "fst x" and cfg = cfg and ev = "snd x"
        and lg = lg and fs = fs] ne st by simp
  have p1: "p = log_path (logDir lg1) d (sessionId cfg) r"
    using Cons.prems(3) dir1 by simp
  have r1: "r < currentRollNumber lg1"
    using Cons.prems(5) roll1 by simp
  have "snd (logEvents cfg xs (lg1, fs1)) p = fs1 p"
    by (rule Cons.IH [OF inv1 rest p1 Cons.prems(4) r1 Cons.prems(6)])
  with step st show ?case by simp
qed

lemma logEvent_enabled:
  assumes "telemetryEnabled cfg" and "toISOString env (timestamp ev) = Some t"
    and "logLine = safeJsonStringify env \<lparr>event = ev, entrySessionId = sessionId cfg,
           entryStudentIdHash = studentIdHash lg, entryMachineIdHash = machineIdHash lg,
           entryTimestamp = t\<rparr> @ [CHR 0x0A]"
    and "lg' = checkAndRollFile env cfg fs logLine lg"
  shows "logEvent env cfg ev (lg, fs) =
     (lg', if appendThrows env (currentLogFilePath lg') then fs
           else fs(currentLogFilePath lg' \<mapsto>
                  (case fs (currentLogFilePath lg') of None \<Rightarrow> logLine | Some old \<Rightarrow> old @ logLine)))"
  using assms(1,2) unfolding assms(3,4)
  by (simp add: logEvent_def Let_def appendFileSync_def)

lemma digit_char_1: "digit_char (Suc 0) = CHR ''1''"
  unfolding digit_char_def by code_simp

lemma sample_prefix: "substring0 8 ''test-session-id'' = ''test-ses''"
  by code_simp

lemma sample_join:
  "path_join ''logs'' ''2025-08-11-test-ses.jsonl'' = ''logs/2025-08-11-test-ses.jsonl''"
  "path_join ''logs'' ''2025-08-11-test-ses-1.jsonl'' = ''logs/2025-08-11-test-ses-1.jsonl''"
  by code_simp+

lemma sample_path:
  "generateLogFilePath sample_env config_on sample_logger = ''logs/2025-08-11-test-ses.jsonl''"
  using sample_join(1)
  by (simp add: generateLogFilePath_def sample_env_def config_on_def sample_logger_def
      sample_prefix)

lemma sample_roll_path:
  "generateLogFilePath sample_env config_on
     (sample_logger\<lparr>currentRollNumber := currentRollNumber sample_logger + 1\<rparr>)
   = ''logs/2025-08-11-test-ses-1.jsonl''"
  using sample_join(2)
  by (simp add: generateLogFilePath_def sample_env_def config_on_def sample_logger_def
      string_of_nat.simps [of "Suc 0"] digit_char_1 sample_prefix)

subsection \<open>Rotation before the write\<close>

text \<open>
  Claim C3, as the code has it. The test in \<open>checkAndRollFile\<close> is
  \<open>projectedSize > maxFileSize\<close>, for every candidate line of an enabled logger whose
  active file exists.

  When the size of the active file plus the byte length of the line is strictly greater
  than the cap, then, for a logger whose active path is a path of its own roll number,
  the roll number goes up by one and the active path becomes the newly computed name
  before the write; the line is appended to that new file (when the append does not
  throw); the new name differs from the old one; and the old file keeps its bytes through
  this call and through every later call of \<open>logEvent\<close>, whatever the events and the days
  of the clock (dates being of one length and without a slash, as \<open>YYYY-MM-DD\<close> is).

  When the sum is at most the cap, and so when it is exactly the cap, the logger is left
  as it was (no roll, the same active path) and the line is appended to the active file;
  if the append throws, the file system is left as it was.
\<close>

theorem logEvent_rolls_before_write:
  assumes enabled: "telemetryEnabled cfg"
    and iso: "toISOString env (timestamp ev) = Some t"
    and line: "logLine = safeJsonStringify env \<lparr>event = ev, entrySessionId = sessionId cfg,
           entryStudentIdHash = studentIdHash lg, entryMachineIdHash = machineIdHash lg,
           entryTimestamp = t\<rparr> @ [CHR 0x0A]"
    and active: "fs (currentLogFilePath lg) = Some bytes"
  shows "(length bytes + length logLine > maxFileSize lg
          \<and> currentLogFilePath lg = generateLogFilePath env0 cfg lg
          \<and> length (today env0) = length (today env)
          \<and> CHR ''/'' \<notin> set (today env0) \<and> CHR ''/'' \<notin> set (today env)
          \<and> (\<forall>x\<in>set later. length (today (fst x)) = length (today env)
                              \<and> CHR ''/'' \<notin> set (today (fst x)))
          \<and> newPath = generateLogFilePath env cfg
                 (lg\<lparr>currentRollNumber := currentRollNumber lg + 1\<rparr>)
          \<and> \<not> appendThrows env newPath
          \<longrightarrow>
            currentRollNumber (fst (logEvent env cfg ev (lg, fs))) = currentRollNumber lg + 1
          \<and> currentLogFilePath (fst (logEvent env cfg ev (lg, fs))) = newPath
          \<and> snd (logEvent env cfg ev (lg, fs)) newPath
              = Some (case fs newPath of None \<Rightarrow> logLine | Some old \<Rightarrow> old @ logLine)
          \<and> newPath \<noteq> currentLogFilePath lg
          \<and> snd (logEvent env cfg ev (lg, fs)) (currentLogFilePath lg) = Some bytes
          \<and> snd (logEvents cfg later (logEvent env cfg ev (lg, fs))) (currentLogFilePath lg)
              = Some bytes)
       \<and> (length bytes + length logLine \<le> maxFileSize lg
          \<longrightarrow>
            fst (logEvent env cfg ev (lg, fs)) = lg
          \<and> snd (logEvent env cfg ev (lg, fs))
              = (if appendThrows env (currentLogFilePath lg) then fs
                 else fs(currentLogFilePath lg \<mapsto> bytes @ logLine)))"
proof (rule conjI; rule impI)
  assume h: "length bytes + length logLine > maxFileSize lg
          \<and> currentLogFilePath lg = generateLogFilePath env0 cfg lg
          \<and> length (today env0) = length (today env)
          \<and> CHR ''/'' \<notin> set (today env0) \<and> CHR ''/'' \<notin> set (today env)
          \<and> (\<forall>x\<in>set later. length (today (fst x)) = length (today env)
                              \<and> CHR ''/'' \<notin> set (today (fst x)))
          \<and> newPath = generateLogFilePath env cfg
                 (lg\<lparr>currentRollNumber := currentRollNumber lg + 1\<rparr>)
          \<and> \<not> appendThrows env newPath"
  from h have over: "length bytes + length logLine > maxFileSize lg" by (rule conjunct1)
  from h have path0: "currentLogFilePath lg = generateLogFilePath env0 cfg lg" by blast
  from h have date0: "length (today env0) = length (today env)" by blast
  from h have free0: "CHR ''/'' \<notin> set (today env0)" by blast
  from h have free: "CHR ''/'' \<notin> set (today env)" by blast
  from h have later_dates: "\<forall>x\<in>set later. length (today (fst x)) = length (today env)
                              \<and> CHR ''/'' \<notin> set (today (fst x))" by blast
  from h have newp: "newPath = generateLogFilePath env cfg
                 (lg\<lparr>currentRollNumber := currentRollNumber lg + 1\<rparr>)" by blast
  from h have writable: "\<not> appendThrows env newPath" by blast
  define lg1 where "lg1 = checkAndRollFile env cfg fs logLine lg"
  define fs1 where
    "fs1 = fs(newPath \<mapsto> (case fs newPath of None \<Rightarrow> logLine | Some old \<Rightarrow> old @ logLine))"
  have roll: "currentRollNumber lg1 = currentRollNumber lg + 1"
    and path1: "currentLogFilePath lg1 = newPath" and dir1: "logDir lg1 = logDir lg"
    using active over newp by (simp_all add: lg1_def checkAndRollFile_def Let_def)
  have res: "logEvent env cfg ev (lg, fs) = (lg1, fs1)"
    using logEvent_enabled [OF enabled iso line lg1_def] writable path1 by (simp add: fs1_def)
  have ne: "newPath \<noteq> currentLogFilePath lg"
  proof
    assume "newPath = currentLogFilePath lg"
    then have "log_path (logDir lg) (today env) (sessionId cfg) (currentRollNumber lg + 1)
             = log_path (logDir lg) (today env0) (sessionId cfg) (currentRollNumber lg)"
      using newp path0 by (simp add: generateLogFilePath_log_path)
    then have "currentRollNumber lg + 1 = currentRollNumber lg"
      by (rule log_path_inj) (simp_all add: date0 free free0)
    then show False by simp
  qed
  have inv1: "path_inv (length (today env)) cfg lg1"
    unfolding path_inv_def using path1 newp dir1 roll free
    by (intro exI [of _ "today env"]) (simp add: generateLogFilePath_log_path)
  have old: "currentLogFilePath lg
      = log_path (logDir lg1) (today env0) (sessionId cfg) (currentRollNumber lg)"
    using path0 dir1 by (simp add: generateLogFilePath_log_path)
  have "snd (logEvents cfg later (lg1, fs1)) (currentLogFilePath lg) = fs1 (currentLogFilePath lg)"
    by (rule logEvents_old_untouched [OF inv1 later_dates old date0 _ free0]) (simp add: roll)
  then show "currentRollNumber (fst (logEvent env cfg ev (lg, fs))) = currentRollNumber lg + 1
          \<and> currentLogFilePath (fst (logEvent env cfg ev (lg, fs))) = newPath
          \<and> snd (logEvent env cfg ev (lg, fs)) newPath
              = Some (case fs newPath of None \<Rightarrow> logLine | Some old \<Rightarrow> old @ logLine)
          \<and> newPath \<noteq> currentLogFilePath lg
          \<and> snd (logEvent env cfg ev (lg, fs)) (currentLogFilePath lg) = Some bytes
          \<and> snd (logEvents cfg later (logEvent env cfg ev (lg, fs))) (currentLogFilePath lg)
              = Some bytes"
    using res roll path1 ne active by (simp add: fs1_def)
next
  assume le: "length bytes + length logLine \<le> maxFileSize lg"
  have same: "checkAndRollFile env cfg fs logLine lg = lg"
    using active le by (simp add: checkAndRollFile_def Let_def)
  show "fst (logEvent env cfg ev (lg, fs)) = lg
          \<and> snd (logEvent env cfg ev (lg, fs))
              = (if appendThrows env (currentLogFilePath lg) then fs
                 else fs(currentLogFilePath lg \<mapsto> bytes @ logLine))"
    using logEvent_enabled [OF enabled iso line same [symmetric]] active by simp
qed

theorem logEvent_rolls_before_write_witness:
  "telemetryEnabled config_on
   \<and> fs_over_cap (currentLogFilePath sample_logger) = Some (replicate 10485732 (CHR ''x''))
   \<and> length (replicate 10485732 (CHR ''x'')) + length sample_line > maxFileSize sample_logger
   \<and> currentLogFilePath sample_logger = generateLogFilePath sample_env config_on sample_logger
   \<and> CHR ''/'' \<notin> set (today sample_env)
   \<and> \<not> appendThrows sample_env ''logs/2025-08-11-test-ses-1.jsonl''
   \<and> currentRollNumber (fst (logEvent sample_env config_on sample_event (sample_logger, fs_over_cap))) = 1
   \<and> currentLogFilePath (fst (logEvent sample_env config_on sample_event (sample_logger, fs_over_cap)))
       = ''logs/2025-08-11-test-ses-1.jsonl''
   \<and> snd (logEvent sample_env config_on sample_event (sample_logger, fs_over_cap))
         ''logs/2025-08-11-test-ses-1.jsonl'' = Some sample_line
   \<and> snd (logEvents config_on [(sample_env, sample_event), (sample_env, sample_event)]
            (logEvent sample_env config_on sample_event (sample_logger, fs_over_cap)))
         ''logs/2025-08-11-test-ses.jsonl'' = Some (replicate 10485732 (CHR ''x''))
   \<and> fs_at_cap (currentLogFilePath sample_logger) = Some (replicate 10485731 (CHR ''x''))
   \<and> length (replicate 10485731 (CHR ''x'')) + length sample_line \<le> maxFileSize sample_logger
   \<and> fst (logEvent sample_env config_on sample_event (sample_logger, fs_at_cap)) = sample_logger
   \<and> snd (logEvent sample_env config_on sample_event (sample_logger, fs_at_cap))
       = fs_at_cap(''logs/2025-08-11-test-ses.jsonl'' \<mapsto> replicate 10485731 (CHR ''x'') @ sample_line)"
proof -
  have enabled: "telemetryEnabled config_on" by (simp add: config_on_def)
  have iso: "toISOString sample_env (timestamp sample_event) = Some ''2025-08-11T10:00:00.000Z''"
    by (simp add: sample_env_def)
  have line: "sample_line = safeJsonStringify sample_env \<lparr>event = sample_event,
           entrySessionId = sessionId config_on,
           entryStudentIdHash = studentIdHash sample_logger,
           entryMachineIdHash = machineIdHash sample_logger,
           entryTimestamp = ''2025-08-11T10:00:00.000Z''\<rparr> @ [CHR 0x0A]"
    by (simp add: sample_env_def sample_line_def)
  have active: "fs_over_cap (currentLogFilePath sample_logger) = Some (replicate 10485732 (CHR ''x''))"
    by (simp add: fs_over_cap_def sample_logger_def)
  have over: "length (replicate 10485732 (CHR ''x'')) + length sample_line > maxFileSize sample_logger"
    by (simp add: sample_line_def sample_logger_def)
  have path0: "currentLogFilePath sample_logger = generateLogFilePath sample_env config_on sample_logger"
    using sample_path by (simp add: sample_logger_def)
  have free: "CHR ''/'' \<notin> set (today sample_env)"
    by (simp add: sample_env_def)
  have later: "\<forall>x\<in>set [(sample_env, sample_event), (sample_env, sample_event)].
                 length (today (fst x)) = length (today sample_env)
                 \<and> CHR ''/'' \<notin> set (today (fst x))"
    using free by simp
  have writable: "\<not> appendThrows sample_env ''logs/2025-08-11-test-ses-1.jsonl''"
    by (simp add: sample_env_def)
  have none: "fs_over_cap ''logs/2025-08-11-test-ses-1.jsonl'' = None"
    by (simp add: fs_over_cap_def)
  have old: "currentLogFilePath sample_logger = ''logs/2025-08-11-test-ses.jsonl''"
    by (simp add: sample_logger_def)
  have at_cap: "fs_at_cap (currentLogFilePath sample_logger) = Some (replicate 10485731 (CHR ''x''))"
    by (simp add: fs_at_cap_def sample_logger_def)
  have le: "length (replicate 10485731 (CHR ''x'')) + length sample_line \<le> maxFileSize sample_logger"
    by (simp add: sample_line_def sample_logger_def)
  have old_writable: "\<not> appendThrows sample_env (currentLogFilePath sample_logger)"
    by (simp add: sample_env_def)
  have rolled:
    "currentRollNumber (fst (logEvent sample_env config_on sample_event (sample_logger, fs_over_cap)))
       = currentRollNumber sample_logger + 1
     \<and> currentLogFilePath (fst (logEvent sample_env config_on sample_event (sample_logger, fs_over_cap)))
         = ''logs/2025-08-11-test-ses-1.jsonl''
     \<and> snd (logEvent sample_env config_on sample_event (sample_logger, fs_over_cap))
           ''logs/2025-08-11-test-ses-1.jsonl''
         = Some (case fs_over_cap ''logs/2025-08-11-test-ses-1.jsonl'' of
                   None \<Rightarrow> sample_line | Some old \<Rightarrow> old @ sample_line)
     \<and> ''logs/2025-08-11-test-ses-1.jsonl'' \<noteq> currentLogFilePath sample_logger
     \<and> snd (logEvent sample_env config_on sample_event (sample_logger, fs_over_cap))
           (currentLogFilePath sample_logger) = Some (replicate 10485732 (CHR ''x''))
     \<and> snd (logEvents config_on [(sample_env, sample_event), (sample_env, sample_event)]
              (logEvent sample_env config_on sample_event (sample_logger, fs_over_cap)))
           (currentLogFilePath sample_logger) = Some (replicate 10485732 (CHR ''x''))"
    by (rule logEvent_rolls_before_write [where cfg = config_on and env = sample_env
          and ev = sample_event and t = "''2025-08-11T10:00:00.000Z''" and logLine = sample_line
          and lg = sample_logger and fs = fs_over_cap and bytes = "replicate 10485732 (CHR ''x'')"
          and ?env0.0 = sample_env
          and later = "[(sample_env, sample_event), (sample_env, sample_event)]"
          and newPath = "''logs/2025-08-11-test-ses-1.jsonl''",
          OF enabled iso line active, THEN conjunct1, THEN mp])
       (intro conjI over path0 refl free later sample_roll_path [symmetric] writable)
  have kept:
    "fst (logEvent sample_env config_on sample_event (sample_logger, fs_at_cap)) = sample_logger
     \<and> snd (logEvent sample_env config_on sample_event (sample_logger, fs_at_cap))
         = (if appendThrows sample_env (currentLogFilePath sample_logger) then fs_at_cap
            else fs_at_cap(currentLogFilePath sample_logger
                   \<mapsto> replicate 10485731 (CHR ''x'') @ sample_line))"
    by (rule logEvent_rolls_before_write [where cfg = config_on and env = sample_env
          and ev = sample_event and t = "''2025-08-11T10:00:00.000Z''" and logLine = sample_line
          and lg = sample_logger and fs = fs_at_cap and bytes = "replicate 10485731 (CHR ''x'')",
          OF enabled iso line at_cap, THEN conjunct2, THEN mp, OF le])
  from rolled have r1: "currentRollNumber (fst (logEvent sample_env config_on sample_event
        (sample_logger, fs_over_cap))) = 1"
    by (simp add: sample_logger_def)
  from rolled none have r3: "snd (logEvent sample_env config_on sample_event (sample_logger, fs_over_cap))
         ''logs/2025-08-11-test-ses-1.jsonl'' = Some sample_line"
    by simp
  from rolled old have r5: "snd (logEvents config_on [(sample_env, sample_event), (sample_env, sample_event)]
            (logEvent sample_env config_on sample_event (sample_logger, fs_over_cap)))
         ''logs/2025-08-11-test-ses.jsonl'' = Some (replicate 10485732 (CHR ''x''))"
    by simp
  from kept old_writable old have k2: "snd (logEvent sample_env config_on sample_event (sample_logger, fs_at_cap))
       = fs_at_cap(''logs/2025-08-11-test-ses.jsonl'' \<mapsto> replicate 10485731 (CHR ''x'') @ sample_line)"
    by simp
  show ?thesis
    by (intro conjI enabled active over path0 free writable r1 rolled [THEN conjunct2, THEN conjunct1]
        r3 r5 at_cap le kept [THEN conjunct1] k2)
qed

text \<open>
  The claim as the specification words it (the size \<^emph>\<open>meets\<close> or exceeds the cap) fails
  when the projected size is exactly the cap: the active file holds 10485731 bytes, the
  line has 29, their sum is the cap of 10485760, and the logger does not roll: the roll
  number stays 0, the path stays, and the line is appended to the old file, which then
  holds exactly 10485760 bytes.
\<close>

theorem roll_at_cap_counterexample:
  "fs_at_cap (currentLogFilePath sample_logger) = Some (replicate 10485731 (CHR ''x''))
   \<and> length (replicate 10485731 (CHR ''x'')) + length sample_line = maxFileSize sample_logger
   \<and> currentRollNumber (fst (logEvent sample_env config_on sample_event (sample_logger, fs_at_cap))) = 0
   \<and> currentLogFilePath (fst (logEvent sample_env config_on sample_event (sample_logger, fs_at_cap)))
       = ''logs/2025-08-11-test-ses.jsonl''
   \<and> snd (logEvent sample_env config_on sample_event (sample_logger, fs_at_cap))
         ''logs/2025-08-11-test-ses.jsonl''
       = Some (replicate 10485731 (CHR ''x'') @ sample_line)"
  by (simp add: logEvent_def checkAndRollFile_def appendFileSync_def Let_def
      sample_env_def config_on_def sample_logger_def sample_event_def fs_at_cap_def sample_line_def)

section \<open>Properties of history curation\<close>

subsection \<open>The validity test\<close>

lemma parts_loop_eq: "parts_loop ps = list_all part_ok ps"
  by (induction ps) simp_all

lemma isValidContent_eq: "isValidContent c = content_valid c"
proof (cases "parts c")
  case None
  then show ?thesis by (simp add: isValidContent_def content_valid_def)
next
  case (Some ps)
  have "list_all part_ok ps
      = (list_all (\<lambda>p. keys_length p > 0) ps
         \<and> list_all (\<lambda>p. \<not> (partText p = Some [] \<and> thought p \<noteq> Some True)) ps)"
    by (induction ps) (auto simp: part_ok_def)
  with Some show ?thesis
    by (auto simp: isValidContent_def content_valid_def parts_loop_eq)
qed

subsection \<open>The two loops\<close>

lemma model_run_eq:
  "model_run h i out v =
     (i + length (takeWhile is_model (drop i h)),
      out @ takeWhile is_model (drop i h),
      v \<and> list_all content_valid (takeWhile is_model (drop i h)))"
proof (induction h i out v rule: model_run.induct)
  case (1 h i out v)
  show ?case
  proof (cases "i < length h \<and> role (h ! i) = Some ''model''")
    case True
    then have d: "drop i h = h ! i # drop (Suc i) h" and m: "is_model (h ! i)"
      by (simp_all add: Cons_nth_drop_Suc is_model_def)
    show ?thesis
      using True 1 d m by (subst model_run.simps) (auto simp: isValidContent_eq)
  next
    case False
    then have "takeWhile is_model (drop i h) = []"
      by (cases "i < length h") (auto simp: is_model_def takeWhile_eq_Nil_iff hd_drop_conv_nth)
    with False show ?thesis by (subst model_run.simps) auto
  qed
qed

lemma user_not_model: "is_user c \<Longrightarrow> \<not> is_model c"
  by (simp add: is_user_def is_model_def)

lemma curate_loop_end: "\<not> i < length h \<Longrightarrow> curate_loop h i cur = Some cur"
  by (subst curate_loop.simps) simp

lemma curate_loop_user_step:
  "i < length h \<Longrightarrow> is_user (h ! i) \<Longrightarrow> curate_loop h i cur = curate_loop h (Suc i) (cur @ [h ! i])"
  by (subst curate_loop.simps) (simp add: is_user_def)

lemma curate_loop_model_step:
  assumes "i < length h" "is_model (h ! i)"
  shows "curate_loop h i cur =
     (if list_all content_valid (takeWhile is_model (drop i h))
      then curate_loop h (i + length (takeWhile is_model (drop i h)))
             (cur @ takeWhile is_model (drop i h))
      else curate_loop h (i + length (takeWhile is_model (drop i h))) (butlast cur))"
  using assms
  by (subst curate_loop.simps) (simp add: model_run_eq is_model_def)

lemma drop_after_run:
  "drop (i + length (takeWhile P (drop i h))) h = dropWhile P (drop i h)"
  by (simp add: dropWhile_eq_drop add.commute)

lemma not_model_after_run:
  assumes "i + length (takeWhile P (drop i h)) < length h"
  shows "\<not> P (h ! (i + length (takeWhile P (drop i h))))"
proof -
  let ?j = "i + length (takeWhile P (drop i h))"
  have "drop ?j h \<noteq> []" using assms by simp
  then have ne: "dropWhile P (drop i h) \<noteq> []" unfolding drop_after_run .
  have "h ! ?j = hd (drop ?j h)" using assms by (simp add: hd_drop_conv_nth)
  also have "\<dots> = hd (dropWhile P (drop i h))" unfolding drop_after_run ..
  finally have eq: "h ! ?j = hd (dropWhile P (drop i h))" .
  have "\<not> P (hd (dropWhile P (drop i h)))" by (rule hd_dropWhile [OF ne])
  then show ?thesis unfolding eq .
qed

lemma run_nonempty:
  assumes "i < length h" "P (h ! i)"
  shows "takeWhile P (drop i h) = h ! i # takeWhile P (drop (Suc i) h)"
    and "dropWhile P (drop i h) = dropWhile P (drop (Suc i) h)"
  using assms by (simp_all add: Cons_nth_drop_Suc [symmetric])

lemma run_all_model:
  assumes "i \<le> j" "j < i + length (takeWhile P (drop i h))"
  shows "P (h ! j)"
proof -
  let ?run = "takeWhile P (drop i h)"
  have lt: "j - i < length ?run" using assms by simp
  then have "?run ! (j - i) = drop i h ! (j - i)" by (rule takeWhile_nth)
  moreover have "j - i < length (drop i h)"
    using lt length_takeWhile_le [of P "drop i h"] by simp
  then have "drop i h ! (j - i) = h ! j" using assms(1) by simp
  moreover have "?run ! (j - i) \<in> set ?run" using lt by (rule nth_mem)
  then have "P (?run ! (j - i))" by (rule set_takeWhileD [THEN conjunct2])
  ultimately show ?thesis by simp
qed

subsection \<open>The loop computes the curation of the specification\<close>

lemma curate_loop_eq:
  assumes ok: "roles_ok h"
  shows "(i < length h \<Longrightarrow> is_model (h ! i) \<Longrightarrow> cur = [])
     \<Longrightarrow> curate_loop h i cur = Some (cur @ curated_spec (drop i h))"
proof (induction "length h - i" arbitrary: i cur rule: less_induct)
  case less
  show ?case
  proof (cases "i < length h")
    case False
    then show ?thesis by (simp add: curate_loop_end curated_spec.simps)
  next
    case True
    let ?c = "h ! i" and ?cs = "drop (Suc i) h"
    have d: "drop i h = ?c # ?cs" using True by (simp add: Cons_nth_drop_Suc)
    have role_c: "is_user ?c \<or> is_model ?c"
      using ok True by (auto simp: roles_ok_def list_all_length)
    \<comment> \<open>what the loop does from a model turn at index \<open>j\<close> on\<close>
    have run_step: "curate_loop h j acc = Some (acc' @ curated_spec (dropWhile is_model (drop j h)))"
      if j: "i \<le> j" "j < length h" "is_model (h ! j)"
        and acc': "acc' = (if list_all content_valid (takeWhile is_model (drop j h))
                          then acc @ takeWhile is_model (drop j h) else butlast acc)"
      for j acc acc'
    proof -
      let ?run = "takeWhile is_model (drop j h)"
      let ?j' = "j + length ?run"
      have "?run \<noteq> []" using run_nonempty(1) [of j h is_model] j by simp
      then have "length h - ?j' < length h - i" using j by (cases ?run) auto
      moreover have "?j' < length h \<Longrightarrow> is_model (h ! ?j') \<Longrightarrow> acc' = []"
        using not_model_after_run [of j is_model h] by simp
      ultimately have "curate_loop h ?j' acc' = Some (acc' @ curated_spec (drop ?j' h))"
        by (rule less.hyps)
      then have ih: "curate_loop h ?j' acc'
          = Some (acc' @ curated_spec (dropWhile is_model (drop j h)))"
        unfolding drop_after_run .
      have "curate_loop h j acc = curate_loop h ?j' acc'"
        unfolding acc' curate_loop_model_step [OF j(2,3), of acc] by simp
      with ih show ?thesis by simp
    qed
    from role_c show ?thesis
    proof
      assume m: "is_model ?c"
      then have cur: "cur = []" using less.prems True by simp
      have "curate_loop h i cur
          = Some ((if list_all content_valid (takeWhile is_model (drop i h))
                   then cur @ takeWhile is_model (drop i h) else butlast cur)
                  @ curated_spec (dropWhile is_model (drop i h)))"
        by (rule run_step) (use True m in simp_all)
      then show ?thesis
        using m cur by (simp add: d curated_spec.simps)
    next
      assume u: "is_user ?c"
      then have nm: "\<not> is_model ?c" by (rule user_not_model)
      have step: "curate_loop h i cur = curate_loop h (Suc i) (cur @ [?c])"
        using True u by (rule curate_loop_user_step)
      show ?thesis
      proof (cases "Suc i < length h \<and> is_model (h ! Suc i)")
        case False
        then have tw: "takeWhile is_model ?cs = []" and dw: "dropWhile is_model ?cs = ?cs"
          by (cases "Suc i < length h";
              simp add: takeWhile_eq_Nil_iff dropWhile_eq_self_iff hd_drop_conv_nth)+
        have "curate_loop h (Suc i) (cur @ [?c]) = Some ((cur @ [?c]) @ curated_spec (drop (Suc i) h))"
          by (rule less.hyps) (use True False in auto)
        then show ?thesis using step nm tw dw by (simp add: d curated_spec.simps(2) [of ?c])
      next
        case True2: True
        have "curate_loop h (Suc i) (cur @ [?c])
          = Some ((if list_all content_valid (takeWhile is_model ?cs)
                   then (cur @ [?c]) @ takeWhile is_model ?cs else butlast (cur @ [?c]))
                  @ curated_spec (dropWhile is_model ?cs))"
          by (rule run_step) (use True2 in simp_all)
        then show ?thesis using step nm by (simp add: d curated_spec.simps(2) [of ?c])
      qed
    qed
  qed
qed

subsection \<open>A role that is neither user nor model stops the loop from returning\<close>

lemma curate_loop_Some_roles:
  assumes "curate_loop h i cur = Some y"
  shows "\<forall>j. i \<le> j \<and> j < length h \<longrightarrow> is_user (h ! j) \<or> is_model (h ! j)"
proof (rule curate_loop.raw_induct [where P = "\<lambda>h i cur y.
    \<forall>j. i \<le> j \<and> j < length h \<longrightarrow> is_user (h ! j) \<or> is_model (h ! j)", OF _ assms])
  fix loop :: "Content list \<Rightarrow> nat \<Rightarrow> Content list \<Rightarrow> Content list option"
    and h i cur y
  assume 1: "\<And>h i cur y. loop h i cur = Some y \<Longrightarrow>
       \<forall>j. i \<le> j \<and> j < length h \<longrightarrow> is_user (h ! j) \<or> is_model (h ! j)"
    "(if i < length h
      then if role (h ! i) = Some ''user''
           then loop h (i + 1) (cur @ [h ! i])
           else case model_run h i [] True of
                (i', modelOutput, isValid) \<Rightarrow>
                  if isValid
                  then loop h i' (cur @ modelOutput)
                  else loop h i' (butlast cur)
      else Some cur) = Some y"
  show "\<forall>j. i \<le> j \<and> j < length h \<longrightarrow> is_user (h ! j) \<or> is_model (h ! j)"
  proof (cases "i < length h")
    case False
    then show ?thesis by auto
  next
    case True
    show ?thesis
    proof (cases "role (h ! i) = Some ''user''")
      case u: True
      with True 1(2) have "loop h (i + 1) (cur @ [h ! i]) = Some y" by simp
      then have "\<forall>j. i + 1 \<le> j \<and> j < length h \<longrightarrow> is_user (h ! j) \<or> is_model (h ! j)"
        by (rule 1(1))
      moreover have "is_user (h ! i)" using u by (simp add: is_user_def)
      ultimately show ?thesis
      proof (intro allI impI)
        fix j assume a: "\<forall>j. i + 1 \<le> j \<and> j < length h \<longrightarrow> is_user (h ! j) \<or> is_model (h ! j)"
          "is_user (h ! i)" and j: "i \<le> j \<and> j < length h"
        show "is_user (h ! j) \<or> is_model (h ! j)"
        proof (cases "j = i")
          case True
          then show ?thesis using a(2) by simp
        next
          case False
          then have "i + 1 \<le> j \<and> j < length h" using j by simp
          then show ?thesis using a(1) by blast
        qed
      qed
    next
      case nu: False
      let ?i' = "i + length (takeWhile is_model (drop i h))"
      have mr: "model_run h i [] True = (?i', takeWhile is_model (drop i h),
                  list_all content_valid (takeWhile is_model (drop i h)))"
        by (simp add: model_run_eq)
      have "(if list_all content_valid (takeWhile is_model (drop i h))
             then loop h ?i' (cur @ takeWhile is_model (drop i h))
             else loop h ?i' (butlast cur)) = Some y"
        using 1(2) True nu unfolding mr by simp
      then obtain acc where "loop h ?i' acc = Some y"
        by (cases "list_all content_valid (takeWhile is_model (drop i h))") auto
      then have rest: "\<forall>j. ?i' \<le> j \<and> j < length h \<longrightarrow> is_user (h ! j) \<or> is_model (h ! j)"
        by (rule 1(1))
      show ?thesis
      proof (intro allI impI)
        fix j assume j: "i \<le> j \<and> j < length h"
        show "is_user (h ! j) \<or> is_model (h ! j)"
        proof (cases "j < ?i'")
          case True
          then show ?thesis using run_all_model [of i j is_model h] j by simp
        next
          case False
          then show ?thesis using rest j by simp
        qed
      qed
    qed
  qed
qed

lemma extractCuratedHistory_Some_roles:
  assumes "extractCuratedHistory h = Some y"
  shows "roles_ok h"
proof (cases "length h = 0")
  case True
  then show ?thesis by (simp add: roles_ok_def)
next
  case False
  with assms have "curate_loop h 0 [] = Some y" by (simp add: extractCuratedHistory_def)
  from curate_loop_Some_roles [OF this] show ?thesis
    by (simp add: roles_ok_def list_all_length)
qed

subsection \<open>What curation keeps\<close>

lemma curated_spec_clean:
  "c \<in> set (curated_spec xs) \<Longrightarrow> c \<in> set xs \<and> (is_model c \<longrightarrow> content_valid c)"
proof (induction xs rule: curated_spec.induct)
  case 1
  then show ?case by (simp add: curated_spec.simps)
next
  case (2 c cs)
  have sub: "set (takeWhile is_model cs) \<subseteq> set cs" "set (dropWhile is_model cs) \<subseteq> set cs"
    by (auto dest: set_takeWhileD set_dropWhileD)
  show ?case
    using 2 sub
    by (auto simp: list_all_iff curated_spec.simps(2) [of c] split: if_splits dest: set_takeWhileD)
qed

lemma curated_spec_id:
  "\<forall>c\<in>set xs. is_model c \<longrightarrow> content_valid c \<Longrightarrow> curated_spec xs = xs"
proof (induction xs rule: curated_spec.induct)
  case 1
  then show ?case by (simp add: curated_spec.simps)
next
  case (2 c cs)
  have v: "list_all content_valid (takeWhile is_model cs)"
    using 2(5) by (auto simp: list_all_iff dest: set_takeWhileD)
  have rest: "curated_spec (dropWhile is_model cs) = dropWhile is_model cs"
  proof (cases "is_model c")
    case True
    then have "list_all content_valid (c # takeWhile is_model cs)" using v 2(5) by simp
    with True show ?thesis using 2(1) 2(5) by (auto dest: set_dropWhileD)
  next
    case False
    with v show ?thesis using 2(3) 2(5) by (auto dest: set_dropWhileD)
  qed
  show ?case using v rest 2(5) by (simp add: curated_spec.simps(2) [of c])
qed

lemma curated_spec_idem: "curated_spec (curated_spec xs) = curated_spec xs"
  by (rule curated_spec_id) (auto dest: curated_spec_clean)

lemma roles_ok_curated: "roles_ok h \<Longrightarrow> roles_ok (curated_spec h)"
  by (auto simp: roles_ok_def list_all_iff dest: curated_spec_clean)

lemma sample_request_roles: "roles_ok sample_request"
  by (simp add: roles_ok_def sample_request_def userText_def modelText_def is_user_def is_model_def)

lemma sample_request_curated:
  "curated_spec sample_request = [userText ''read @notes.md'']"
  by (simp add: sample_request_def curated_spec.simps userText_def modelText_def textPart_def
      is_user_def is_model_def content_valid_def keys_length_def)

subsection \<open>Curation follows the specification\<close>

text \<open>
  Claim C4. For every history of user and model turns, \<open>extractCuratedHistory\<close> returns,
  and what it returns is the curation of the specification: user turns pass through, a
  maximal run of consecutive model turns is kept exactly when each of its turns is
  content-valid, and a run with an invalid turn is dropped together with the user turn
  immediately before it. For the history \<open>[user "hi", model ""]\<close> followed by a new user
  turn, only the new user turn is left.
\<close>

theorem extractCuratedHistory_refines_spec:
  assumes "roles_ok h"
  shows "extractCuratedHistory h = Some (curated_spec h)"
proof (cases "length h = 0")
  case True
  then show ?thesis by (simp add: extractCuratedHistory_def curated_spec.simps)
next
  case False
  then show ?thesis
    using curate_loop_eq [OF assms, of 0 "[]"] by (simp add: extractCuratedHistory_def)
qed

theorem extractCuratedHistory_refines_spec_witness:
  "roles_ok [userText ''hi'', modelText '''', userText ''read @notes.md'']
   \<and> extractCuratedHistory [userText ''hi'', modelText '''', userText ''read @notes.md'']
       = Some [userText ''read @notes.md'']"
  using extractCuratedHistory_refines_spec [of sample_request] sample_request_roles
    sample_request_curated
  by (simp add: sample_request_def)

subsection \<open>Curation is idempotent\<close>

text \<open>
  Claim C7. For every history, curating and then curating the result is the same as
  curating once (where curation does not return, neither does the composition). For
  every history of user and model turns curation returns, and curating what it returned
  gives the same sequence again.
\<close>

theorem extractCuratedHistory_idempotent:
  "Option.bind (extractCuratedHistory h) extractCuratedHistory = extractCuratedHistory h
   \<and> (roles_ok h \<longrightarrow>
        (\<exists>y. extractCuratedHistory h = Some y \<and> extractCuratedHistory y = Some y))"
proof -
  have once: "extractCuratedHistory h = Some (curated_spec h)" if "roles_ok h" for h
    using curate_loop_eq [OF that, of 0 "[]"]
    by (cases "length h = 0") (simp_all add: extractCuratedHistory_def curated_spec.simps)
  have again: "extractCuratedHistory (curated_spec h) = Some (curated_spec h)" if "roles_ok h"
    using once [OF roles_ok_curated [OF that]] by (simp add: curated_spec_idem)
  have composed: "Option.bind (extractCuratedHistory h) extractCuratedHistory
      = extractCuratedHistory h"
  proof (cases "extractCuratedHistory h")
    case None
    then show ?thesis by simp
  next
    case (Some y)
    then have ok: "roles_ok h" by (rule extractCuratedHistory_Some_roles)
    with Some have "y = curated_spec h" using once [OF ok] by simp
    then show ?thesis using Some again [OF ok] by simp
  qed
  have "roles_ok h \<longrightarrow>
        (\<exists>y. extractCuratedHistory h = Some y \<and> extractCuratedHistory y = Some y)"
    using once again by blast
  with composed show ?thesis by (rule conjI)
qed

theorem extractCuratedHistory_idempotent_witness:
  "roles_ok sample_history
   \<and> extractCuratedHistory sample_history = Some [userText ''hello'', modelText ''Hi there'']
   \<and> extractCuratedHistory [userText ''hello'', modelText ''Hi there'']
       = Some [userText ''hello'', modelText ''Hi there'']"
proof -
  have ok: "roles_ok sample_history"
    by (simp add: roles_ok_def sample_history_def userText_def modelText_def is_user_def is_model_def)
  have c1: "curated_spec sample_history = [userText ''hello'', modelText ''Hi there'']"
    by (simp add: sample_history_def curated_spec.simps userText_def modelText_def textPart_def
        is_user_def is_model_def content_valid_def keys_length_def)
  have c2: "extractCuratedHistory sample_history = Some (curated_spec sample_history)"
    using curate_loop_eq [OF ok, of 0 "[]"] by (simp add: extractCuratedHistory_def sample_history_def)
  from extractCuratedHistory_idempotent [of sample_history] ok
  obtain y where y: "extractCuratedHistory sample_history = Some y" "extractCuratedHistory y = Some y"
    by blast
  from y(1) c2 c1 have "y = [userText ''hello'', modelText ''Hi there'']" by simp
  with y c2 c1 ok show ?thesis by simp
qed

section \<open>Properties of tool prediction\<close>









lemma find_append:
  "find P (xs @ ys) = (case find P xs of None \<Rightarrow> find P ys | Some x \<Rightarrow> Some x)"
  by (induction xs) auto






section \<open>Properties of the chat session\<close>

subsection \<open>Auxiliary facts\<close>

lemma extractCuratedHistory_iff:
  "extractCuratedHistory h = Some y \<longleftrightarrow> roles_ok h \<and> y = curated_spec h"
proof
  assume a: "extractCuratedHistory h = Some y"
  then have ok: "roles_ok h" by (rule extractCuratedHistory_Some_roles)
  have "extractCuratedHistory h = Some (curated_spec h)"
    using curate_loop_eq [OF ok, of 0 "[]"]
    by (cases "length h = 0") (simp_all add: extractCuratedHistory_def curated_spec.simps)
  with a ok show "roles_ok h \<and> y = curated_spec h" by simp
next
  assume a: "roles_ok h \<and> y = curated_spec h"
  then have "extractCuratedHistory h = Some (curated_spec h)"
    using curate_loop_eq [of h 0 "[]"]
    by (cases "length h = 0") (simp_all add: extractCuratedHistory_def curated_spec.simps)
  with a show "extractCuratedHistory h = Some y" by simp
qed

lemma response_events_append [simp]:
  "response_events (xs @ ys) = response_events xs @ response_events ys"
  by (simp add: response_events_def)

lemma error_events_append [simp]:
  "error_events (xs @ ys) = error_events xs @ error_events ys"
  by (simp add: error_events_def)

lemma events_single [simp]:
  "response_events [LogApiRequest q] = []" "response_events [LogApiResponse r] = [r]"
  "response_events [LogApiError e] = []"
  "error_events [LogApiRequest q] = []" "error_events [LogApiResponse r] = []"
  "error_events [LogApiError e] = [e]"
  by (simp_all add: response_events_def error_events_def)

lemma logApiRequest_chat_fields [simp]:
  "history (logApiRequest_chat rid cs m p st) = history st"
  "currentModel (logApiRequest_chat rid cs m p st) = currentModel st"
  "contentGeneratorAuthType (logApiRequest_chat rid cs m p st) = contentGeneratorAuthType st"
  "response_events (telemetry (logApiRequest_chat rid cs m p st)) = response_events (telemetry st)"
  "error_events (telemetry (logApiRequest_chat rid cs m p st)) = error_events (telemetry st)"
  by (simp_all add: logApiRequest_chat_def)

lemma logApiError_chat_fields [simp]:
  "history (logApiError_chat d e p st) = history st"
  "response_events (telemetry (logApiError_chat d e p st)) = response_events (telemetry st)"
  "error_events (telemetry (logApiError_chat d e p st))
     = error_events (telemetry st)
       @ [\<lparr>err_model = currentModel st, err_error = error_message e, err_duration_ms = d,
           err_prompt_id = p, err_auth_type = contentGeneratorAuthType st,
           err_error_type = error_class e\<rparr>]"
  by (simp_all add: logApiError_chat_def error_message_def error_class_def Let_def)

lemma logApiResponse_chat_fields [simp]:
  "history (logApiResponse_chat d p rid u j st) = history st"
  "currentModel (logApiResponse_chat d p rid u j st) = currentModel st"
  "contentGeneratorAuthType (logApiResponse_chat d p rid u j st) = contentGeneratorAuthType st"
  "error_events (telemetry (logApiResponse_chat d p rid u j st)) = error_events (telemetry st)"
  by (cases u; simp add: logApiResponse_chat_def Let_def)+

lemma logApiResponse_chat_events:
  "response_events (telemetry (logApiResponse_chat d p rid u j st))
     = response_events (telemetry st)
       @ (case u of
            None \<Rightarrow> []
          | Some um \<Rightarrow>
              [\<lparr>resp_model = currentModel st, resp_duration_ms = d, resp_prompt_id = p,
                resp_request_id = rid, resp_auth_type = contentGeneratorAuthType st,
                resp_usage = um, resp_response_text = j,
                resp_response_type = detectResponseType j\<rparr>])"
  by (cases u) (simp_all add: logApiResponse_chat_def Let_def)

lemma recordHistory_returns:
  assumes "roles_ok afc"
  shows "\<exists>hist. recordHistory f u m afc h = Some hist"
proof -
  have "extractCuratedHistory afc = Some (curated_spec afc)"
    using assms by (simp add: extractCuratedHistory_iff)
  then show ?thesis by (simp add: recordHistory_def Let_def)
qed

lemma collect_chunks_fst:
  "fst (collect_chunks cs acc) = fst acc @ filter isValidResponse cs"
proof (induction cs arbitrary: acc)
  case Nil
  then show ?case by simp
next
  case (Cons c cs)
  show ?case
    by (cases "isValidResponse c")
       (auto simp: Cons.IH Let_def split: option.splits)
qed

lemma getFinalUsageMetadata_None:
  "getFinalUsageMetadata cs = None \<longleftrightarrow> (\<forall>c\<in>set cs. usageMetadata c = None)"
proof (cases "find (\<lambda>chunk. usageMetadata chunk \<noteq> None) (rev cs)")
  case None
  then have a: "getFinalUsageMetadata cs = None" by (simp add: getFinalUsageMetadata_def)
  have b: "\<forall>c\<in>set cs. usageMetadata c = None" using None by (simp add: find_None_iff)
  show ?thesis using a b by simp
next
  case (Some c)
  then obtain i where "i < length (rev cs)" "usageMetadata (rev cs ! i) \<noteq> None" "c = rev cs ! i"
    unfolding find_Some_iff by blast
  then have c: "usageMetadata c \<noteq> None" "c \<in> set cs"
    using nth_mem [of i "rev cs"] by simp_all
  have "getFinalUsageMetadata cs = usageMetadata c"
    using Some by (simp add: getFinalUsageMetadata_def)
  with c show ?thesis by auto
qed

lemma getFinalUsageMetadata_last:
  assumes "usageMetadata c \<noteq> None" "\<forall>d\<in>set post. usageMetadata d = None"
  shows "getFinalUsageMetadata (pre @ c # post) = usageMetadata c"
proof -
  have "find (\<lambda>chunk. usageMetadata chunk \<noteq> None) (rev post) = None"
    using assms(2) by (simp add: find_None_iff)
  then show ?thesis
    using assms(1) by (simp add: getFinalUsageMetadata_def find_append)
qed
lemma sendMessage_fail_eq:
  assumes "roles_ok (history st)"
    and "retryWithBackoff env (currentModel st) (curated_spec (history st) @ [userContent])
           = (mdl, Inl e)"
  shows "sendMessage env userContent prompt_id st
     = Some (Inl e, logApiError_chat (endTime env - startTime env) e prompt_id
          ((logApiRequest_chat (newRequestId env) (curated_spec (history st) @ [userContent])
              (currentModel st) prompt_id st)\<lparr>currentModel := mdl\<rparr>))"
proof -
  have c: "extractCuratedHistory (history st) = Some (curated_spec (history st))"
    using assms(1) by (simp add: extractCuratedHistory_iff)
  show ?thesis
    unfolding sendMessage_def c by (simp add: Let_def assms(2))
qed

lemma sendMessage_ok_eq:
  assumes "roles_ok (history st)"
    and "retryWithBackoff env (currentModel st) (curated_spec (history st) @ [userContent])
           = (mdl, Inr response)"
    and "roles_ok (afc_slice st response)"
  shows "\<exists>hist. sendMessage env userContent prompt_id st
     = Some (Inr response,
          (logApiResponse_chat (endTime env - startTime env) prompt_id (newRequestId env)
             (usageMetadata response) (JsonResponse response)
             ((logApiRequest_chat (newRequestId env)
                 (curated_spec (history st) @ [userContent]) (currentModel st) prompt_id st)
              \<lparr>currentModel := mdl\<rparr>))\<lparr>history := hist\<rparr>)"
proof -
  have c: "extractCuratedHistory (history st) = Some (curated_spec (history st))"
    using assms(1) by (simp add: extractCuratedHistory_iff)
  obtain hist where h: "recordHistory (isFunctionResponse env) userContent
      (case (case candidates response of None \<Rightarrow> None | Some [] \<Rightarrow> None
             | Some (c # cs) \<Rightarrow> candidateContent c) of None \<Rightarrow> [] | Some c \<Rightarrow> [c])
      (afc_slice st response) (history st) = Some hist"
    using recordHistory_returns [OF assms(3)] by blast
  show ?thesis
    unfolding sendMessage_def c
    using h by (intro exI [of _ hist]) (simp add: Let_def assms(2) afc_slice_def)
qed

lemma sendMessageStream_ok_eq:
  assumes "roles_ok (history st)"
    and "retryWithBackoff env (currentModel st) (curated_spec (history st) @ [userContent])
           = (mdl, Inr (chunks, None))"
  shows "\<exists>hist. sendMessageStream env userContent prompt_id st
     = Some (Inr chunks,
          (logApiResponse_chat (endTime env - startTime env) prompt_id (newRequestId env)
             (getFinalUsageMetadata (filter isValidResponse chunks))
             (JsonChunks (filter isValidResponse chunks))
             ((logApiRequest_chat (newRequestId env)
                 (curated_spec (history st) @ [userContent]) (currentModel st) prompt_id st)
              \<lparr>currentModel := mdl\<rparr>))\<lparr>history := hist\<rparr>)"
proof -
  have c: "extractCuratedHistory (history st) = Some (curated_spec (history st))"
    using assms(1) by (simp add: extractCuratedHistory_iff)
  have ok: "roles_ok []" by (simp add: roles_ok_def)
  obtain hist where h: "recordHistory (isFunctionResponse env) userContent
      (snd (collect_chunks chunks ([], []))) [] (history st) = Some hist"
    using recordHistory_returns [OF ok] by blast
  show ?thesis
    unfolding sendMessageStream_def c
    using h
    by (intro exI [of _ hist])
       (simp add: Let_def assms(2) processStreamResponse_def collect_chunks_fst)
qed

subsection \<open>A failed send\<close>

text \<open>
  Claim C6. When the error escapes the retry policy, \<open>sendMessage\<close> throws that error;
  it has then logged exactly one error event, with the active model, the duration, the
  message and the class of the error and the authentication type, and no response
  event; and the history of the session is what it was before the call: neither the
  user turn nor any model output is in it.
\<close>

theorem sendMessage_failure_one_error_event:
  assumes "roles_ok (history st)"
    and "retryWithBackoff env (currentModel st) (curated_spec (history st) @ [userContent])
           = (mdl, Inl e)"
  shows "returned (sendMessage env userContent prompt_id st) = Some (Inl e)
       \<and> history_after (sendMessage env userContent prompt_id st) = Some (history st)
       \<and> errors_after (sendMessage env userContent prompt_id st)
           = Some (error_events (telemetry st) @ [error_event st env mdl prompt_id e])
       \<and> responses_after (sendMessage env userContent prompt_id st)
           = Some (response_events (telemetry st))"
  unfolding sendMessage_fail_eq [OF assms]
  by (simp add: returned_def history_after_def errors_after_def responses_after_def
      error_event_def)

theorem sendMessage_failure_one_error_event_witness:
  "roles_ok (history sample_chat)
   \<and> returned (sendMessage failing_env (userText ''read @notes.md'') ''p-1'' sample_chat)
       = Some (Inl (ErrorObject ''Error'' ''401 Unauthorized''))
   \<and> history_after (sendMessage failing_env (userText ''read @notes.md'') ''p-1'' sample_chat)
       = Some sample_history
   \<and> errors_after (sendMessage failing_env (userText ''read @notes.md'') ''p-1'' sample_chat)
       = Some [\<lparr>err_model = ''qwen3-coder-plus'', err_error = ''401 Unauthorized'',
                err_duration_ms = 250, err_prompt_id = ''p-1'',
                err_auth_type = Some ''qwen-oauth'', err_error_type = ''Error''\<rparr>]"
proof -
  have ok: "roles_ok (history sample_chat)"
    by (simp add: sample_chat_def sample_history_def roles_ok_def userText_def modelText_def
        is_user_def is_model_def)
  have fails: "retryWithBackoff failing_env (currentModel sample_chat)
        (curated_spec (history sample_chat) @ [userText ''read @notes.md''])
      = (''qwen3-coder-plus'', Inl (ErrorObject ''Error'' ''401 Unauthorized''))"
    by (simp add: failing_env_def sample_chat_def)
  from sendMessage_failure_one_error_event [OF ok fails, of "''p-1''"] ok
  show ?thesis
    by (simp add: error_event_def error_message_def error_class_def failing_env_def
        sample_chat_def error_events_def)
qed
subsection \<open>Response events and usage metadata\<close>

lemma sample_chat_roles: "roles_ok (history sample_chat)"
  by (simp add: sample_chat_def sample_history_def roles_ok_def userText_def modelText_def
      is_user_def is_model_def)

lemma text_response_valid: "isValidResponse (text_response s u) = (s \<noteq> [])"
  by (simp add: isValidResponse_def text_response_def modelText_def textPart_def
      isValidContent_def part_ok_def keys_length_def)

text \<open>
  Claim C5, as the code has it. A completed \<open>sendMessage\<close> logs one response event, with
  the usage metadata of the response, when the response carries usage metadata, and none
  otherwise. A stream consumed to its end without error logs a response event only for
  the chunks it collected, which are the chunks that are valid responses: none when no
  collected chunk carries usage metadata, and otherwise exactly one, with the usage
  metadata of the last collected chunk that carries any (the chunks after it carry none).
\<close>

theorem response_event_iff_collected_usage:
  assumes "roles_ok (history st)"
  shows "(retryWithBackoff env (currentModel st) (curated_spec (history st) @ [userContent])
            = (mdl, Inr response)
          \<longrightarrow> roles_ok (afc_slice st response)
          \<longrightarrow> returned (sendMessage env userContent prompt_id st) = Some (Inr response)
            \<and> responses_after (sendMessage env userContent prompt_id st)
                = Some (response_events (telemetry st)
                        @ (case usageMetadata response of
                             None \<Rightarrow> []
                           | Some um \<Rightarrow> [response_event st env mdl prompt_id um
                                           (JsonResponse response)])))
       \<and> (retryWithBackoff senv (currentModel st) (curated_spec (history st) @ [userContent])
            = (smdl, Inr (chunks, None))
          \<longrightarrow> returned (sendMessageStream senv userContent prompt_id st) = Some (Inr chunks)
            \<and> responses_after (sendMessageStream senv userContent prompt_id st)
                = Some (response_events (telemetry st)
                        @ (case getFinalUsageMetadata (filter isValidResponse chunks) of
                             None \<Rightarrow> []
                           | Some um \<Rightarrow> [response_event st senv smdl prompt_id um
                                           (JsonChunks (filter isValidResponse chunks))])))
       \<and> ((getFinalUsageMetadata cs = None) = (\<forall>c\<in>set cs. usageMetadata c = None))
       \<and> (usageMetadata c \<noteq> None \<longrightarrow> (\<forall>d\<in>set post. usageMetadata d = None)
          \<longrightarrow> getFinalUsageMetadata (pre @ c # post) = usageMetadata c)"
proof (intro conjI impI)
  assume r: "retryWithBackoff env (currentModel st) (curated_spec (history st) @ [userContent])
            = (mdl, Inr response)" and afc: "roles_ok (afc_slice st response)"
  from sendMessage_ok_eq [OF assms r afc, of prompt_id] obtain hist where
    eq: "sendMessage env userContent prompt_id st
     = Some (Inr response,
          (logApiResponse_chat (endTime env - startTime env) prompt_id (newRequestId env)
             (usageMetadata response) (JsonResponse response)
             ((logApiRequest_chat (newRequestId env)
                 (curated_spec (history st) @ [userContent]) (currentModel st) prompt_id st)
              \<lparr>currentModel := mdl\<rparr>))\<lparr>history := hist\<rparr>)"
    by blast
  show "returned (sendMessage env userContent prompt_id st) = Some (Inr response)"
    unfolding eq by (simp add: returned_def)
  show "responses_after (sendMessage env userContent prompt_id st)
                = Some (response_events (telemetry st)
                        @ (case usageMetadata response of
                             None \<Rightarrow> []
                           | Some um \<Rightarrow> [response_event st env mdl prompt_id um
                                           (JsonResponse response)]))"
    unfolding eq
    by (simp add: responses_after_def logApiResponse_chat_events response_event_def
        logApiRequest_chat_def split: option.splits)
next
  assume r: "retryWithBackoff senv (currentModel st) (curated_spec (history st) @ [userContent])
            = (smdl, Inr (chunks, None))"
  from sendMessageStream_ok_eq [OF assms r, of prompt_id] obtain hist where
    eq: "sendMessageStream senv userContent prompt_id st
     = Some (Inr chunks,
          (logApiResponse_chat (endTime senv - startTime senv) prompt_id (newRequestId senv)
             (getFinalUsageMetadata (filter isValidResponse chunks))
             (JsonChunks (filter isValidResponse chunks))
             ((logApiRequest_chat (newRequestId senv)
                 (curated_spec (history st) @ [userContent]) (currentModel st) prompt_id st)
              \<lparr>currentModel := smdl\<rparr>))\<lparr>history := hist\<rparr>)"
    by blast
  show "returned (sendMessageStream senv userContent prompt_id st) = Some (Inr chunks)"
    unfolding eq by (simp add: returned_def)
  show "responses_after (sendMessageStream senv userContent prompt_id st)
                = Some (response_events (telemetry st)
                        @ (case getFinalUsageMetadata (filter isValidResponse chunks) of
                             None \<Rightarrow> []
                           | Some um \<Rightarrow> [response_event st senv smdl prompt_id um
                                           (JsonChunks (filter isValidResponse chunks))]))"
    unfolding eq
    by (simp add: responses_after_def logApiResponse_chat_events response_event_def
        logApiRequest_chat_def split: option.splits)
next
  show "(getFinalUsageMetadata cs = None) = (\<forall>c\<in>set cs. usageMetadata c = None)"
    by (rule getFinalUsageMetadata_None)
next
  assume "usageMetadata c \<noteq> None" "\<forall>d\<in>set post. usageMetadata d = None"
  then show "getFinalUsageMetadata (pre @ c # post) = usageMetadata c"
    by (rule getFinalUsageMetadata_last)
qed

theorem response_event_iff_collected_usage_witness:
  "roles_ok (history sample_chat)
   \<and> returned (sendMessage answering_env (userText ''read @notes.md'') ''p-2'' sample_chat)
       = Some (Inr sample_response)
   \<and> responses_after (sendMessage answering_env (userText ''read @notes.md'') ''p-2'' sample_chat)
       = Some [response_event sample_chat answering_env ''qwen3-coder-plus'' ''p-2''
                 sample_usage (JsonResponse sample_response)]
   \<and> returned (sendMessageStream (streaming_env usage_stream) (userText ''read @notes.md'')
                 ''p-3'' sample_chat)
       = Some (Inr (fst usage_stream))
   \<and> responses_after (sendMessageStream (streaming_env usage_stream)
                         (userText ''read @notes.md'') ''p-3'' sample_chat)
       = Some [response_event sample_chat (streaming_env usage_stream) ''qwen3-coder-plus''
                 ''p-3'' sample_usage (JsonChunks (fst usage_stream))]
   \<and> getFinalUsageMetadata [text_response ''Notes'' None, text_response ''.'' None] = None
   \<and> getFinalUsageMetadata (fst usage_stream) = Some sample_usage"
proof -
  note ok = sample_chat_roles
  have r1: "retryWithBackoff answering_env (currentModel sample_chat)
        (curated_spec (history sample_chat) @ [userText ''read @notes.md''])
      = (''qwen3-coder-plus'', Inr sample_response)"
    by (simp add: answering_env_def sample_chat_def)
  have afc: "roles_ok (afc_slice sample_chat sample_response)"
    by (simp add: afc_slice_def sample_response_def text_response_def roles_ok_def)
  have r2: "retryWithBackoff (streaming_env usage_stream) (currentModel sample_chat)
        (curated_spec (history sample_chat) @ [userText ''read @notes.md''])
      = (''qwen3-coder-plus'', Inr (fst usage_stream, None))"
    by (simp add: streaming_env_def sample_chat_def usage_stream_def)
  have u1: "usageMetadata sample_response = Some sample_usage"
    by (simp add: sample_response_def text_response_def)
  have valid: "filter isValidResponse (fst usage_stream) = fst usage_stream"
    by (simp add: usage_stream_def text_response_valid)
  have c: "usageMetadata (text_response '' read'' (Some sample_usage)) \<noteq> None"
    by (simp add: text_response_def)
  have post: "\<forall>d\<in>set [text_response ''.'' None]. usageMetadata d = None"
    by (simp add: text_response_def)
  have nousage: "\<forall>c\<in>set [text_response ''Notes'' None, text_response ''.'' None].
      usageMetadata c = None"
    by (simp add: text_response_def)
  have tel: "response_events (telemetry sample_chat) = []"
    by (simp add: sample_chat_def response_events_def)
  note fact = response_event_iff_collected_usage [OF ok,
      where env = answering_env and userContent = "userText ''read @notes.md''"
        and mdl = "''qwen3-coder-plus''" and response = sample_response
        and senv = "streaming_env usage_stream" and smdl = "''qwen3-coder-plus''"
        and chunks = "fst usage_stream"
        and cs = "[text_response ''Notes'' None, text_response ''.'' None]"
        and c = "text_response '' read'' (Some sample_usage)"
        and post = "[text_response ''.'' None]" and pre = "[text_response ''Notes'' None]"]
  have last: "getFinalUsageMetadata (fst usage_stream) = Some sample_usage"
    using fact [of "''p-2''"] c post by (simp add: usage_stream_def text_response_def)
  have none: "getFinalUsageMetadata [text_response ''Notes'' None, text_response ''.'' None] = None"
    using fact [of "''p-2''"] nousage by blast
  have send: "returned (sendMessage answering_env (userText ''read @notes.md'') ''p-2'' sample_chat)
       = Some (Inr sample_response)
     \<and> responses_after (sendMessage answering_env (userText ''read @notes.md'') ''p-2'' sample_chat)
       = Some [response_event sample_chat answering_env ''qwen3-coder-plus'' ''p-2''
                 sample_usage (JsonResponse sample_response)]"
    using fact [of "''p-2''"] r1 afc by (simp add: u1 tel)
  have stream: "returned (sendMessageStream (streaming_env usage_stream)
                 (userText ''read @notes.md'') ''p-3'' sample_chat)
       = Some (Inr (fst usage_stream))
     \<and> responses_after (sendMessageStream (streaming_env usage_stream)
                         (userText ''read @notes.md'') ''p-3'' sample_chat)
       = Some [response_event sample_chat (streaming_env usage_stream) ''qwen3-coder-plus''
                 ''p-3'' sample_usage (JsonChunks (fst usage_stream))]"
    using fact [of "''p-3''"] r2 by (simp add: valid last tel)
  from ok send stream none last show ?thesis by blast
qed

text \<open>
  The claim as the specification words it speaks of the chunks of the stream. It fails on
  a stream whose usage metadata arrives on a chunk that is not a valid response, here a
  closing chunk with an empty text: the stream is consumed to its end without error, a
  chunk carries usage metadata, and no response event is logged.
\<close>

theorem usage_on_invalid_chunk_counterexample:
  "list_ex carries_usage (fst closing_usage_stream)
   \<and> snd closing_usage_stream = None
   \<and> returned (sendMessageStream (streaming_env closing_usage_stream)
                 (userText ''read @notes.md'') ''p-3'' sample_chat)
       = Some (Inr (fst closing_usage_stream))
   \<and> responses_after (sendMessageStream (streaming_env closing_usage_stream)
                         (userText ''read @notes.md'') ''p-3'' sample_chat)
       = Some []"
proof -
  have r: "retryWithBackoff (streaming_env closing_usage_stream) (currentModel sample_chat)
        (curated_spec (history sample_chat) @ [userText ''read @notes.md''])
      = (''qwen3-coder-plus'', Inr (fst closing_usage_stream, None))"
    by (simp add: streaming_env_def sample_chat_def closing_usage_stream_def)
  have valid: "filter isValidResponse (fst closing_usage_stream) = [text_response ''Notes read.'' None]"
    by (simp add: closing_usage_stream_def text_response_valid)
  have nousage: "getFinalUsageMetadata [text_response ''Notes read.'' None] = None"
    by (simp add: getFinalUsageMetadata_def text_response_def)
  from sendMessageStream_ok_eq [OF sample_chat_roles r, of "''p-3''"] obtain hist where
    eq: "sendMessageStream (streaming_env closing_usage_stream) (userText ''read @notes.md'')
           ''p-3'' sample_chat
     = Some (Inr (fst closing_usage_stream),
          (logApiResponse_chat (endTime (streaming_env closing_usage_stream)
               - startTime (streaming_env closing_usage_stream)) ''p-3''
             (newRequestId (streaming_env closing_usage_stream))
             (getFinalUsageMetadata (filter isValidResponse (fst closing_usage_stream)))
             (JsonChunks (filter isValidResponse (fst closing_usage_stream)))
             ((logApiRequest_chat (newRequestId (streaming_env closing_usage_stream))
                 (curated_spec (history sample_chat) @ [userText ''read @notes.md''])
                 (currentModel sample_chat) ''p-3'' sample_chat)
              \<lparr>currentModel := ''qwen3-coder-plus''\<rparr>))\<lparr>history := hist\<rparr>)"
    by blast
  have "list_ex carries_usage (fst closing_usage_stream)"
    by (simp add: closing_usage_stream_def carries_usage_def text_response_def)
  moreover have "snd closing_usage_stream = None"
    by (simp add: closing_usage_stream_def)
  moreover have "returned (sendMessageStream (streaming_env closing_usage_stream)
                 (userText ''read @notes.md'') ''p-3'' sample_chat)
       = Some (Inr (fst closing_usage_stream))"
    unfolding eq by (simp add: returned_def)
  moreover have "responses_after (sendMessageStream (streaming_env closing_usage_stream)
                         (userText ''read @notes.md'') ''p-3'' sample_chat)
       = Some []"
    unfolding eq valid nousage
    by (simp add: responses_after_def logApiResponse_chat_def logApiRequest_chat_def
        sample_chat_def response_events_def)
  ultimately show ?thesis by blast
qed

subsection \<open>The same request id twice\<close>

text \<open>
  Claim C1 does not hold of the code. \<open>_logApiResponse\<close> neither tests nor records the
  request id (both statements are commented out in the source): after a first response
  with usage metadata for request \<open>req-1\<close> the set of logged ids is still empty, a second
  response for \<open>req-1\<close> is logged as well, and the log writer, which has no test of its
  own, appends the line of an \<open>api_response\<close> event of one request id twice.
\<close>

theorem duplicate_response_logged_twice:
  "loggedResponses (logApiResponse_chat 250 ''p-1'' ''req-1'' (Some sample_usage)
       (JsonResponse sample_response) sample_chat) = []
   \<and> map resp_request_id
       (response_events (telemetry
          (logApiResponse_chat 260 ''p-1'' ''req-1'' (Some sample_usage)
             (JsonResponse sample_response)
             (logApiResponse_chat 250 ''p-1'' ''req-1'' (Some sample_usage)
                (JsonResponse sample_response) sample_chat))))
       = [''req-1'', ''req-1'']
   \<and> eventType sample_event = api_response
   \<and> requestId sample_event = Some ''req-1''
   \<and> snd (logEvents config_on [(sample_env, sample_event), (sample_env, sample_event)]
            (sample_logger, Map.empty)) ''logs/2025-08-11-test-ses.jsonl''
       = Some (sample_line @ sample_line)"
  by (simp add: logApiResponse_chat_def Let_def sample_chat_def response_events_def
      sample_event_def logEvent_def checkAndRollFile_def appendFileSync_def
      sample_env_def config_on_def sample_logger_def sample_line_def)

section \<open>Properties of getHistory\<close>

subsection \<open>Reading is stable when the store grows\<close>

lemma lookup_append: "a < length h \<Longrightarrow> lookup (h @ ext) a = lookup h a"
  by (simp add: lookup_def nth_append)

lemma lookup_SomeD: "lookup h a = Some c \<Longrightarrow> a < length h"
  by (simp add: lookup_def split: if_splits)

lemma lookup_append_Some: "lookup h a = Some c \<Longrightarrow> lookup (h @ ext) a = Some c"
  using lookup_append [of a h ext] lookup_SomeD [of h a c] by simp

lemma those_map_mono:
  assumes "those (map f refs) = Some vs" and "\<And>r v. r \<in> set refs \<Longrightarrow> f r = Some v \<Longrightarrow> g r = Some v"
  shows "those (map g refs) = Some vs"
  using assms
proof (induction refs arbitrary: vs)
  case Nil
  then show ?case by simp
next
  case (Cons r refs)
  from Cons.prems(1) obtain v vs' where v: "f r = Some v" "those (map f refs) = Some vs'" "vs = v # vs'"
    by (auto split: option.splits)
  have "g r = Some v" using Cons.prems(2) v(1) by simp
  moreover have "those (map g refs) = Some vs'"
    using Cons.IH [OF v(2)] Cons.prems(2) by simp
  ultimately show ?case using v(3) by simp
qed

lemma those_map_nth:
  assumes "length refs = length vs" and "\<And>i. i < length refs \<Longrightarrow> f (refs ! i) = Some (vs ! i)"
  shows "those (map f refs) = Some vs"
  using assms
proof (induction refs arbitrary: vs)
  case Nil
  then show ?case by simp
next
  case (Cons r refs)
  then obtain v vs' where vs: "vs = v # vs'" by (cases vs) auto
  have "f r = Some v" using Cons.prems(2) [of 0] vs by simp
  moreover have "those (map f refs) = Some vs'"
  proof (rule Cons.IH)
    show "length refs = length vs'" using Cons.prems(1) vs by simp
    show "f (refs ! i) = Some (vs' ! i)" if "i < length refs" for i
      using Cons.prems(2) [of "Suc i"] that vs by simp
  qed
  ultimately show ?case using vs by simp
qed

lemma read_part_append: "read_part h a = Some p \<Longrightarrow> read_part (h @ ext) a = Some p"
  by (auto simp: read_part_def lookup_append_Some split: option.splits cell.splits)

lemma read_parts_append:
  assumes "read_parts h a = Some ps"
  shows "read_parts (h @ ext) a = Some ps"
proof -
  from assms obtain refs where c: "lookup h a = Some (ArrayCell refs)"
    and t: "those (map (read_part h) refs) = Some ps"
    by (auto simp: read_parts_def split: option.splits cell.splits)
  have "those (map (read_part (h @ ext)) refs) = Some ps"
    by (rule those_map_mono [OF t]) (rule read_part_append)
  then show ?thesis by (simp add: read_parts_def lookup_append_Some [OF c])
qed

lemma read_content_append:
  assumes "read_content h a = Some c"
  shows "read_content (h @ ext) a = Some c"
proof -
  from assms obtain r po where l: "lookup h a = Some (ContentCell r po)"
    by (auto simp: read_content_def split: option.splits cell.splits)
  show ?thesis
  proof (cases po)
    case None
    then show ?thesis
      using assms l by (simp add: read_content_def lookup_append_Some [OF l])
  next
    case (Some pa)
    with assms l obtain ps where ps: "read_parts h pa = Some ps" "c = \<lparr>role = r, parts = Some ps\<rparr>"
      by (auto simp: read_content_def)
    then show ?thesis
      using Some by (simp add: read_content_def lookup_append_Some [OF l] read_parts_append)
  qed
qed

lemma read_history_append:
  assumes "read_history h a = Some v"
  shows "read_history (h @ ext) a = Some v"
proof -
  from assms obtain refs where c: "lookup h a = Some (ArrayCell refs)"
    and t: "those (map (read_content h) refs) = Some v"
    by (auto simp: read_history_def split: option.splits cell.splits)
  have "those (map (read_content (h @ ext)) refs) = Some v"
    by (rule those_map_mono [OF t]) (rule read_content_append)
  then show ?thesis by (simp add: read_history_def lookup_append_Some [OF c])
qed

subsection \<open>What a clone allocates\<close>

lemma alloc_parts_eq:
  "alloc_parts h ps = (h @ map PartCell ps, [length h ..< length h + length ps])"
proof (induction ps arbitrary: h)
  case Nil
  then show ?case by simp
next
  case (Cons p ps)
  have "alloc_parts (h @ [PartCell p]) ps
      = ((h @ [PartCell p]) @ map PartCell ps,
         [length (h @ [PartCell p]) ..< length (h @ [PartCell p]) + length ps])"
    by (rule Cons.IH)
  then have f: "fst (alloc_parts (h @ [PartCell p]) ps) = h @ map PartCell (p # ps)"
    and s: "snd (alloc_parts (h @ [PartCell p]) ps) = [Suc (length h) ..< Suc (length h) + length ps]"
    by simp_all
  have e: "length h + length (p # ps) = Suc (length h) + length ps" by simp
  have "length h < Suc (length h) + length ps" by simp
  then have u: "[length h ..< length h + length (p # ps)]
      = length h # [Suc (length h) ..< Suc (length h) + length ps]"
    unfolding e by (rule upt_conv_Cons)
  show ?case unfolding alloc_parts.simps f s u ..
qed

lemma alloc_content_ext: "\<exists>cells. fst (alloc_content h c) = h @ cells"
  by (cases "parts c") (simp_all add: alloc_content_def alloc_parts_eq alloc_array_def Let_def)

lemma alloc_content_addr: "snd (alloc_content h c) < length (fst (alloc_content h c))"
  by (cases "parts c") (simp_all add: alloc_content_def alloc_parts_eq alloc_array_def Let_def)

lemma lookup_at_end: "lookup (h @ [c] @ ext) (length h) = Some c"
  by (simp add: lookup_def nth_append)

lemma read_part_allocated:
  assumes "i < length ps"
  shows "read_part (h @ map PartCell ps @ ext) (length h + i) = Some (ps ! i)"
  using assms by (simp add: read_part_def lookup_def nth_append)

lemma read_parts_allocated:
  "read_parts (h @ map PartCell ps @ [ArrayCell [length h ..< length h + length ps]] @ ext)
     (length h + length ps) = Some ps"
proof -
  have l: "lookup (h @ map PartCell ps @ [ArrayCell [length h ..< length h + length ps]] @ ext)
             (length h + length ps) = Some (ArrayCell [length h ..< length h + length ps])"
    by (simp add: lookup_def nth_append)
  have "those (map (read_part (h @ map PartCell ps
                      @ [ArrayCell [length h ..< length h + length ps]] @ ext))
                [length h ..< length h + length ps]) = Some ps"
    by (rule those_map_nth) (simp_all add: read_part_allocated)
  with l show ?thesis by (simp add: read_parts_def)
qed

lemma alloc_content_read:
  "read_content (fst (alloc_content h c) @ ext) (snd (alloc_content h c)) = Some c"
proof (cases "parts c")
  case None
  then show ?thesis
    by (simp add: alloc_content_def read_content_def lookup_def nth_append)
next
  case (Some ps)
  let ?h = "h @ map PartCell ps @ [ArrayCell [length h ..< length h + length ps]]
              @ ([ContentCell (role c) (Some (length h + length ps))] @ ext)"
  have st: "fst (alloc_content h c) @ ext = ?h"
    and ad: "snd (alloc_content h c) = length h + length ps + 1"
    using Some by (simp_all add: alloc_content_def alloc_parts_eq alloc_array_def Let_def)
  have l: "lookup ?h (length h + length ps + 1)
      = Some (ContentCell (role c) (Some (length h + length ps)))"
    by (simp add: lookup_def nth_append)
  have "read_parts ?h (length h + length ps) = Some ps"
    by (rule read_parts_allocated)
  then show ?thesis
    unfolding st ad using l Some by (simp add: read_content_def)
qed

lemma alloc_content_cells:
  "cells_of_content (fst (alloc_content h c) @ ext) (snd (alloc_content h c))
     \<subseteq> {length h ..< length (fst (alloc_content h c))}"
proof (cases "parts c")
  case None
  then show ?thesis
    by (simp add: alloc_content_def cells_of_content_def lookup_def nth_append)
next
  case (Some ps)
  let ?h = "h @ map PartCell ps @ [ArrayCell [length h ..< length h + length ps]]
              @ ([ContentCell (role c) (Some (length h + length ps))] @ ext)"
  have st: "fst (alloc_content h c) @ ext = ?h"
    and ad: "snd (alloc_content h c) = length h + length ps + 1"
    and ln: "length (fst (alloc_content h c)) = length h + length ps + 2"
    using Some by (simp_all add: alloc_content_def alloc_parts_eq alloc_array_def Let_def)
  have l: "lookup ?h (length h + length ps + 1)
      = Some (ContentCell (role c) (Some (length h + length ps)))"
    by (simp add: lookup_def nth_append)
  have l2: "lookup ?h (length h + length ps) = Some (ArrayCell [length h ..< length h + length ps])"
    by (simp add: lookup_def nth_append)
  show ?thesis
    unfolding st ad ln
    by (auto simp: cells_of_content_def cells_of_parts_def lookup_def nth_append)
qed

lemma alloc_contents_props:
  "(\<exists>cells. fst (alloc_contents h cs) = h @ cells)
   \<and> (\<forall>ext. those (map (read_content (fst (alloc_contents h cs) @ ext))
                    (snd (alloc_contents h cs))) = Some cs)
   \<and> (\<forall>ext. \<forall>r\<in>set (snd (alloc_contents h cs)).
         r < length (fst (alloc_contents h cs))
         \<and> cells_of_content (fst (alloc_contents h cs) @ ext) r
             \<subseteq> {length h ..< length (fst (alloc_contents h cs))})"
proof (induction cs arbitrary: h)
  case Nil
  then show ?case by simp
next
  case (Cons c cs)
  let ?h1 = "fst (alloc_content h c)" and ?a = "snd (alloc_content h c)"
  let ?hf = "fst (alloc_contents ?h1 cs)" and ?refs = "snd (alloc_contents ?h1 cs)"
  obtain cells1 where h1: "?h1 = h @ cells1"
    using alloc_content_ext by blast
  have a: "?a < length ?h1" by (rule alloc_content_addr)
  from Cons.IH [of ?h1] obtain cells2 where hf: "?hf = ?h1 @ cells2"
    and rd: "\<And>ext. those (map (read_content (?hf @ ext)) ?refs) = Some cs"
    and cl: "\<And>ext r. r \<in> set ?refs \<Longrightarrow> r < length ?hf
               \<and> cells_of_content (?hf @ ext) r \<subseteq> {length ?h1 ..< length ?hf}"
    by blast
  have len: "length h \<le> length ?h1" "length ?h1 \<le> length ?hf" "?a < length ?h1"
    using h1 hf a by simp_all
  have first: "read_content (?hf @ ext) ?a = Some c" for ext
    using alloc_content_read [of h c "cells2 @ ext"] by (simp add: hf)
  have firstc: "cells_of_content (?hf @ ext) ?a \<subseteq> {length h ..< length ?hf}" for ext
  proof -
    have "cells_of_content (?h1 @ (cells2 @ ext)) ?a \<subseteq> {length h ..< length ?h1}"
      by (rule alloc_content_cells)
    then show ?thesis using len(2) by (auto simp: hf)
  qed
  have "\<exists>cells. fst (alloc_contents h (c # cs)) = h @ cells"
    using h1 hf by simp
  moreover have "\<forall>ext. those (map (read_content (fst (alloc_contents h (c # cs)) @ ext))
                    (snd (alloc_contents h (c # cs)))) = Some (c # cs)"
    using first rd by simp
  moreover have "\<forall>ext. \<forall>r\<in>set (snd (alloc_contents h (c # cs))).
         r < length (fst (alloc_contents h (c # cs)))
         \<and> cells_of_content (fst (alloc_contents h (c # cs)) @ ext) r
             \<subseteq> {length h ..< length (fst (alloc_contents h (c # cs)))}"
  proof (intro allI ballI)
    fix ext r assume r: "r \<in> set (snd (alloc_contents h (c # cs)))"
    then have "r = ?a \<or> r \<in> set ?refs" by simp
    then show "r < length (fst (alloc_contents h (c # cs)))
         \<and> cells_of_content (fst (alloc_contents h (c # cs)) @ ext) r
             \<subseteq> {length h ..< length (fst (alloc_contents h (c # cs)))}"
    proof
      assume "r = ?a"
      then show ?thesis using firstc [of ext] len by simp
    next
      assume "r \<in> set ?refs"
      from cl [OF this, of ext] show ?thesis using len(1) by auto
    qed
  qed
  ultimately show ?case by blast
qed

lemma alloc_history_props:
  "(\<exists>cells. fst (alloc_history h v) = h @ cells)
   \<and> (\<forall>ext. read_history (fst (alloc_history h v) @ ext) (snd (alloc_history h v)) = Some v)
   \<and> cells_of_history (fst (alloc_history h v)) (snd (alloc_history h v))
       \<subseteq> {length h ..< length (fst (alloc_history h v))}"
proof -
  let ?hc = "fst (alloc_contents h v)" and ?refs = "snd (alloc_contents h v)"
  from alloc_contents_props [of h v] obtain cells where hc: "?hc = h @ cells"
    and rd: "\<And>ext. those (map (read_content (?hc @ ext)) ?refs) = Some v"
    and cl: "\<And>ext r. r \<in> set ?refs \<Longrightarrow> r < length ?hc
               \<and> cells_of_content (?hc @ ext) r \<subseteq> {length h ..< length ?hc}"
    by blast
  have st: "fst (alloc_history h v) = ?hc @ [ArrayCell ?refs]"
    and ad: "snd (alloc_history h v) = length ?hc"
    by (simp_all add: alloc_history_def alloc_array_def)
  have l: "lookup (?hc @ [ArrayCell ?refs] @ ext) (length ?hc) = Some (ArrayCell ?refs)" for ext
    by (rule lookup_at_end)
  have "\<exists>cells. fst (alloc_history h v) = h @ cells"
    using st hc by simp
  moreover have "\<forall>ext. read_history (fst (alloc_history h v) @ ext) (snd (alloc_history h v)) = Some v"
  proof
    fix ext
    show "read_history (fst (alloc_history h v) @ ext) (snd (alloc_history h v)) = Some v"
      unfolding st ad using l [of ext] rd [of "[ArrayCell ?refs] @ ext"]
      by (simp add: read_history_def)
  qed
  moreover have "cells_of_history (fst (alloc_history h v)) (snd (alloc_history h v))
       \<subseteq> {length h ..< length (fst (alloc_history h v))}"
  proof -
    have "cells_of_content (?hc @ [ArrayCell ?refs]) r \<subseteq> {length h ..< length ?hc + 1}"
      if "r \<in> set ?refs" for r
      using cl [OF that, of "[ArrayCell ?refs]"] by auto
    moreover have "length h \<le> length ?hc" using hc by simp
    ultimately show ?thesis
      unfolding st ad using l [of "[]"]
      by (auto simp: cells_of_history_def)
  qed
  ultimately show ?thesis by blast
qed
subsection \<open>The copy returned by getHistory\<close>

lemma getHistory_value:
  assumes "read_history h historyRef = Some v"
  shows "result_value (getHistory c historyRef h) = (if c then extractCuratedHistory v else Some v)"
proof -
  have rd: "read_history (fst (alloc_history h w)) (snd (alloc_history h w)) = Some w" for w
    using alloc_history_props [of h w] by (metis append_Nil2)
  show ?thesis
  proof (cases "if c then extractCuratedHistory v else Some v")
    case None
    then show ?thesis using assms by (simp add: getHistory_def result_value_def)
  next
    case (Some w)
    then have "getHistory c historyRef h = Some (alloc_history h w)"
      using assms by (simp add: getHistory_def)
    then show ?thesis using Some rd [of w] by (simp add: result_value_def)
  qed
qed

lemma sample_store_eval:
  "sample_store =
     [PartCell (textPart ''hello''), ArrayCell [0], ContentCell (Some ''user'') (Some 1),
      PartCell (textPart ''Hi there''), ArrayCell [3], ContentCell (Some ''model'') (Some 4),
      PartCell (textPart ''hi''), ArrayCell [6], ContentCell (Some ''user'') (Some 7),
      PartCell (textPart ''''), ArrayCell [9], ContentCell (Some ''model'') (Some 10),
      ArrayCell [2, 5, 8, 11]]"
  by (simp add: sample_store_def alloc_history_def alloc_array_def alloc_content_def
      sample_history_def userText_def modelText_def Let_def)

lemma sample_store_read: "read_history sample_store 12 = Some sample_history"
proof -
  have "snd (alloc_history [] sample_history) = 12"
    by (simp add: alloc_history_def alloc_array_def alloc_content_def
        sample_history_def userText_def modelText_def Let_def)
  then show ?thesis
    using alloc_history_props [of "[]" sample_history] unfolding sample_store_def
    by (metis append_Nil2)
qed

text \<open>
  Claim C9. Let the store hold the history \<open>v\<close> at the address that \<open>this.history\<close> names
  (for the curated view, a history of user and model turns). Then \<open>getHistory\<close> returns;
  it writes to no cell that existed, so the stored history reads as before; the array it
  returns reads as the requested view of \<open>v\<close>; that array, its turns, their parts arrays
  and their parts are all cells made by the call; so overwriting any of them leaves the
  cells that existed as they were; and in every store that agrees with the old one on
  the cells that existed, whatever has been done to other cells, the stored history still
  reads as \<open>v\<close> and \<open>getHistory\<close> returns the same values, plain and curated, from which
  requests are built.
\<close>

theorem getHistory_returns_independent_copy:
  assumes stored: "read_history h historyRef = Some v"
    and roles: "curated \<longrightarrow> roles_ok v"
    and view: "v' = (if curated then curated_spec v else v)"
    and res: "res = alloc_history h v'"
  shows "getHistory curated historyRef h = Some res
       \<and> take (length h) (fst res) = h
       \<and> read_history (fst res) historyRef = Some v
       \<and> read_history (fst res) (snd res) = Some v'
       \<and> cells_of_history (fst res) (snd res) \<subseteq> {length h ..< length (fst res)}
       \<and> (\<forall>x\<in>cells_of_history (fst res) (snd res). \<forall>c. take (length h) ((fst res)[x := c]) = h)
       \<and> (\<forall>h''. take (length h) h'' = h \<longrightarrow>
             read_history h'' historyRef = Some v
             \<and> (\<forall>c. result_value (getHistory c historyRef h'')
                      = result_value (getHistory c historyRef h)))"
proof -
  from alloc_history_props [of h v'] obtain cells where ext: "fst res = h @ cells"
    and rd: "read_history (fst res) (snd res) = Some v'"
    and fresh: "cells_of_history (fst res) (snd res) \<subseteq> {length h ..< length (fst res)}"
    unfolding res by (metis append_Nil2)
  have cur: "(if curated then extractCuratedHistory v else Some v) = Some v'"
    using roles view by (simp add: extractCuratedHistory_iff)
  have g: "getHistory curated historyRef h = Some res"
    using stored cur by (simp add: getHistory_def res)
  have t: "take (length h) (fst res) = h" by (simp add: ext)
  have s: "read_history (fst res) historyRef = Some v"
    unfolding ext by (rule read_history_append [OF stored])
  have w: "\<forall>x\<in>cells_of_history (fst res) (snd res). \<forall>c. take (length h) ((fst res)[x := c]) = h"
    using fresh t by auto
  have f: "\<forall>h''. take (length h) h'' = h \<longrightarrow>
             read_history h'' historyRef = Some v
             \<and> (\<forall>c. result_value (getHistory c historyRef h'')
                      = result_value (getHistory c historyRef h))"
  proof (intro allI impI)
    fix h'' assume a: "take (length h) h'' = h"
    have "h'' = h @ drop (length h) h''"
      using a append_take_drop_id [of "length h" h''] by simp
    then have r: "read_history h'' historyRef = Some v"
      using read_history_append [OF stored, of "drop (length h) h''"] by simp
    show "read_history h'' historyRef = Some v
             \<and> (\<forall>c. result_value (getHistory c historyRef h'')
                      = result_value (getHistory c historyRef h))"
      using r by (simp add: getHistory_value [OF r] getHistory_value [OF stored])
  qed
  from g t s rd fresh w f show ?thesis by blast
qed

theorem getHistory_returns_independent_copy_witness:
  "read_history sample_store 12 = Some sample_history
   \<and> roles_ok sample_history
   \<and> getHistory True 12 sample_store
       = Some (alloc_history sample_store [userText ''hello'', modelText ''Hi there''])
   \<and> snd (alloc_history sample_store [userText ''hello'', modelText ''Hi there'']) = 19
   \<and> read_history (fst (alloc_history sample_store [userText ''hello'', modelText ''Hi there'']))
        19 = Some [userText ''hello'', modelText ''Hi there'']
   \<and> read_history
        ((fst (alloc_history sample_store [userText ''hello'', modelText ''Hi there'']))
           [19 := ArrayCell []]) 12
       = Some sample_history
   \<and> result_value (getHistory True 12
        ((fst (alloc_history sample_store [userText ''hello'', modelText ''Hi there'']))
           [19 := ArrayCell []]))
       = Some [userText ''hello'', modelText ''Hi there'']"
proof -
  let ?v' = "[userText ''hello'', modelText ''Hi there'']"
  let ?res = "alloc_history sample_store ?v'"
  have roles: "roles_ok sample_history"
    by (simp add: sample_history_def roles_ok_def userText_def modelText_def
        is_user_def is_model_def)
  have view: "?v' = (if True then curated_spec sample_history else sample_history)"
    by (simp add: sample_history_def curated_spec.simps userText_def modelText_def textPart_def
        is_user_def is_model_def content_valid_def keys_length_def)
  have addr: "snd ?res = 19"
    by (simp add: sample_store_eval alloc_history_def alloc_array_def alloc_content_def
        userText_def modelText_def Let_def)
  have roles': "True \<longrightarrow> roles_ok sample_history" using roles by simp
  note all = getHistory_returns_independent_copy [OF sample_store_read roles' view refl]
  note g = all [THEN conjunct1]
  note rd = all [THEN conjunct2, THEN conjunct2, THEN conjunct2, THEN conjunct1]
  note wr = all [THEN conjunct2, THEN conjunct2, THEN conjunct2, THEN conjunct2,
      THEN conjunct2, THEN conjunct1]
  note fr = all [THEN conjunct2, THEN conjunct2, THEN conjunct2, THEN conjunct2,
      THEN conjunct2, THEN conjunct2]
  have mem: "19 \<in> cells_of_history (fst ?res) (snd ?res)"
    unfolding addr by (simp add: cells_of_history_def)
  have agree: "take (length sample_store) ((fst ?res)[19 := ArrayCell []]) = sample_store"
    using bspec [OF wr mem] by (rule spec)
  have after: "read_history ((fst ?res)[19 := ArrayCell []]) 12 = Some sample_history
      \<and> (\<forall>c. result_value (getHistory c 12 ((fst ?res)[19 := ArrayCell []]))
               = result_value (getHistory c 12 sample_store))"
    using fr [THEN spec, THEN mp, OF agree] .
  have base: "result_value (getHistory True 12 sample_store) = Some ?v'"
    unfolding g using rd by (simp add: result_value_def)
  have a1: "read_history ((fst ?res)[19 := ArrayCell []]) 12 = Some sample_history"
    using after by (rule conjunct1)
  have a2: "result_value (getHistory True 12 ((fst ?res)[19 := ArrayCell []])) = Some ?v'"
    using after [THEN conjunct2, THEN spec, of True] base by (rule trans)
  have rd19: "read_history (fst ?res) 19 = Some ?v'"
    using rd unfolding addr .
  show ?thesis
    by (intro conjI) (rule sample_store_read roles g addr rd19 a1 a2)+
qed

section \<open>Properties of overlapping calls\<close>

lemma assign_settled_promise_inv:
  "list_all id (promises s) \<Longrightarrow> list_all id (promises (assign_settled_promise s))
     \<and> sendPromiseRef (assign_settled_promise s) < length (promises (assign_settled_promise s))"
  by (simp add: assign_settled_promise_def)

lemma step_keeps_promises_settled:
  assumes "step isFR a s = Some s'"
    and "list_all id (promises s) \<and> sendPromiseRef s < length (promises s)"
  shows "list_all id (promises s') \<and> sendPromiseRef s' < length (promises s')"
proof (cases a)
  case (Call u)
  with assms show ?thesis by (auto simp: step_def emit_def)
next
  case (TransportResult k r)
  with assms show ?thesis by (auto simp: step_def emit_def set_task_def split: if_splits)
next
  case (Resume k)
  with assms have r: "resume isFR k s = Some s'" by (simp add: step_def)
  then have k: "k < length (tasks s)" by (simp add: resume_def split: if_splits)
  show ?thesis
  proof (cases "place (tasks s ! k)")
    case (AtSendPromise p)
    with r k assms(2) show ?thesis
      by (auto simp: resume_def Let_def set_task_def split: if_splits option.splits)
  next
    case AtLogRequest
    with r k assms(2) show ?thesis
      by (auto simp: resume_def Let_def set_task_def emit_def)
  next
    case AtTransport
    with r k assms(2) show ?thesis
      by (auto simp: resume_def Let_def set_task_def emit_def assign_settled_promise_def
          split: option.splits sum.splits)
  next
    case AtLogResponse
    with r k assms(2) show ?thesis
      by (auto simp: resume_def Let_def set_task_def emit_def assign_settled_promise_def
          split: option.splits sum.splits)
  next
    case AtCommitCatch
    with r k assms(2) show ?thesis
      by (auto simp: resume_def Let_def set_task_def emit_def)
  next
    case Returned
    with r k show ?thesis by (simp add: resume_def Let_def)
  next
    case Thrown
    with r k show ?thesis by (simp add: resume_def Let_def)
  qed
qed

text \<open>
  Every promise that \<open>this.sendPromise\<close> ever names is settled: \<open>await this.sendPromise\<close>
  never waits for an exchange in flight.
\<close>

lemma sendPromise_always_settled:
  assumes "run isFR acts s = Some s'"
    and "list_all id (promises s) \<and> sendPromiseRef s < length (promises s)"
  shows "list_all id (promises s') \<and> sendPromiseRef s' < length (promises s')"
  using assms
proof (induction acts arbitrary: s)
  case Nil
  then show ?case by simp
next
  case (Cons a acts)
  from Cons.prems(1) obtain s1 where s1: "step isFR a s = Some s1" "run isFR acts s1 = Some s'"
    by (auto split: option.splits)
  from step_keeps_promises_settled [OF s1(1) Cons.prems(2)] Cons.IH [OF s1(2)]
  show ?case by blast
qed

text \<open>
  Claim C2 does not hold of the code. The second call is made while the first waits for
  its transport; \<open>this.sendPromise\<close> still names the settled promise of the start, so the
  second call goes on, builds its request from the history without the first exchange,
  and invokes the transport: both transports are in flight, and the first exchange has
  not committed.
\<close>

theorem overlapping_sends_not_serialized:
  "map_option events (run sample_isFunctionResponse overlap_schedule (start []))
     = Some [Called 0, TransportBegins 0 [userText ''first''],
             Called 1, TransportBegins 1 [userText ''second'']]
   \<and> map_option places (run sample_isFunctionResponse overlap_schedule (start []))
     = Some [AtTransport, AtTransport]
   \<and> map_option chatHistory (run sample_isFunctionResponse overlap_schedule (start []))
     = Some []
   \<and> \<not> serialized [Called 0, TransportBegins 0 [userText ''first''],
                    Called 1, TransportBegins 1 [userText ''second'']] False"
  by (simp add: overlap_schedule_def start_def step_def resume_def emit_def set_task_def
      places_def extractCuratedHistory_def Let_def)

text \<open>
  For comparison, calls that do not overlap: the second call is made after the first has
  returned, and its request holds the first exchange.
\<close>

lemma sequential_sends_serialized:
  "map_option events (run sample_isFunctionResponse sequential_schedule (start []))
     = Some [Called 0, TransportBegins 0 [userText ''first''], TransportEnds 0, Commits 0,
             Returns 0, Called 1,
             TransportBegins 1 [userText ''first'', modelText ''one'', userText ''second'']]
   \<and> serialized [Called 0, TransportBegins 0 [userText ''first''], TransportEnds 0, Commits 0,
             Returns 0, Called 1,
             TransportBegins 1 [userText ''first'', modelText ''one'', userText ''second'']]
        False"
proof -
  have h: "extractCuratedHistory [userText ''first'', modelText ''one'']
      = Some [userText ''first'', modelText ''one'']"
    by (simp add: extractCuratedHistory_iff roles_ok_def curated_spec.simps userText_def
        modelText_def textPart_def is_user_def is_model_def content_valid_def keys_length_def)
  have r: "recordHistory sample_isFunctionResponse (userText ''first'') [modelText ''one''] [] []
      = Some [userText ''first'', modelText ''one'']"
    by (simp add: recordHistory_def Let_def isThoughtContent_def isTextContent_def last_opt_def
        userText_def modelText_def textPart_def)
  have e: "extractCuratedHistory [] = Some []"
    by (simp add: extractCuratedHistory_def)
  show ?thesis
    by (simp add: sequential_schedule_def start_def step_def resume_def emit_def set_task_def
        assign_settled_promise_def text_response_def Let_def e
        h [unfolded userText_def modelText_def textPart_def]
        r [unfolded userText_def modelText_def textPart_def]
        userText_def modelText_def textPart_def)
qed

end
